theory Spec2Isabelle
  imports Main "HOL-Library.Word" "HOL-Library.Char_ord" "HOL-Library.List_Lexorder"
begin

section \<open>Data model\<close>

text \<open>
  Go strings are byte sequences: \<^typ>\<open>string\<close> (a list of 8-bit characters) models them,
  and the order of \<^theory_text>\<open>List_Lexorder\<close> over \<^theory_text>\<open>Char_ord\<close> is Go's bytewise
  string comparison.  A byte is an 8-bit word.
\<close>

type_synonym byte = "8 word"

text \<open>The error kind carried by a \<open>strconv.NumError\<close>.\<close>

datatype num_err = ErrSyntax | ErrRange

text \<open>
  The package's error values, the \<open>strconv.NumError\<close> of a failed \<open>ParseInt\<close> (with the
  string it was given), an error of the random source, and a run-time panic.
\<close>

datatype error =
    ErrWordsNum
  | ErrInvalidWord
  | ErrChecksum
  | ErrBinaryString
  | ErrEntropyBitLen
  | NumError string num_err
  | RandError
  | Panic

record Mnemonic =
  Words :: string

definition wordBitLen :: nat where
  "wordBitLen = 11"

definition seedSaltMod :: string where
  "seedSaltMod = ''mnemonic''"

definition seedPbkdf2KeyLen :: nat where
  "seedPbkdf2KeyLen = 64"

definition seedPbkdf2Round :: nat where
  "seedPbkdf2Round = 2048"

section \<open>Library functions: formatting and parsing binary numbers\<close>

subsection \<open>\<open>fmt.Sprintf\<close> with the verbs \<open>%.8b\<close> and \<open>%.11b\<close>\<close>

definition bin_digit :: "nat \<Rightarrow> char" where
  "bin_digit d = (if d = 0 then CHR ''0'' else CHR ''1'')"

text \<open>The binary digits of a number, most significant first, one digit for zero.\<close>

fun bin_digits :: "nat \<Rightarrow> string" where
  "bin_digits n = (if n < 2 then [bin_digit n] else bin_digits (n div 2) @ [bin_digit (n mod 2)])"

declare bin_digits.simps [simp del]

text \<open>
  \<open>Sprintf("%.<prec>b", i)\<close>: the digits of the magnitude, padded with zeros on the left
  up to \<open>prec\<close> digits, after a minus sign when the value is negative.
\<close>

definition sprintf_b :: "nat \<Rightarrow> int \<Rightarrow> string" where
  "sprintf_b prec i =
     (let ds = bin_digits (nat \<bar>i\<bar>);
          padded = replicate (prec - length ds) (CHR ''0'') @ ds
      in if i < 0 then CHR ''-'' # padded else padded)"

subsection \<open>\<open>strconv.ParseInt(s, 2, 16)\<close>\<close>

text \<open>
  The digit loop of \<open>ParseUint\<close> in base 2 with 16 bits: a character that is not a binary
  digit is a syntax error with value 0, a value above \<open>2^16 - 1\<close> a range error with that
  maximum.
\<close>

fun parseUint_loop :: "nat \<Rightarrow> string \<Rightarrow> nat \<times> num_err option" where
  "parseUint_loop n [] = (n, None)"
| "parseUint_loop n (c # cs) =
     (if c \<noteq> CHR ''0'' \<and> c \<noteq> CHR ''1'' then (0, Some ErrSyntax)
      else let n1 = 2 * n + (if c = CHR ''1'' then 1 else 0)
           in if n1 > 65535 then (65535, Some ErrRange) else parseUint_loop n1 cs)"

definition ParseUint_2_16 :: "string \<Rightarrow> nat \<times> num_err option" where
  "ParseUint_2_16 s = (if s = [] then (0, Some ErrSyntax) else parseUint_loop 0 s)"

text \<open>
  \<open>ParseInt\<close> picks off one leading sign, parses the rest unsigned and checks the signed
  16-bit range.  It returns a value also when it fails.
\<close>

definition ParseInt_2_16 :: "string \<Rightarrow> int \<times> num_err option" where
  "ParseInt_2_16 s0 =
     (if s0 = [] then (0, Some ErrSyntax)
      else
        let neg = (hd s0 = CHR ''-'');
            s = (if hd s0 = CHR ''+'' \<or> hd s0 = CHR ''-'' then tl s0 else s0);
            (un, err) = ParseUint_2_16 s
        in if err = Some ErrSyntax then (0, err)
           else if \<not> neg \<and> un \<ge> 32768 then (32767, Some ErrRange)
           else if neg \<and> un > 32768 then (- 32768, Some ErrRange)
           else (if neg then - int un else int un, None))"

section \<open>Bit-string codec\<close>

text \<open>\<open>bytesToBinaryString\<close>: each byte printed with \<open>%.8b\<close>, in order.\<close>

definition bytesToBinaryString :: "byte list \<Rightarrow> string" where
  "bytesToBinaryString bs = concat (map (\<lambda>b. sprintf_b 8 (uint b)) bs)"

text \<open>
  The loop of \<open>binaryStringToBytes\<close> over the groups of 8 characters: \<open>s\<close> is the part
  of the string from the loop index on, \<open>acc\<close> the slice of bytes appended so far.  The error of
  \<open>ParseInt\<close> is returned as it is.
\<close>

function binaryStringToBytes_loop :: "string \<Rightarrow> byte list \<Rightarrow> error + byte list" where
  "binaryStringToBytes_loop s acc =
     (if s = [] then Inr acc
      else
        let byteStrBin = take 8 s
        in case ParseInt_2_16 byteStrBin of
             (byteVal, Some e) \<Rightarrow> Inl (NumError byteStrBin e)
           | (byteVal, None) \<Rightarrow> binaryStringToBytes_loop (drop 8 s) (acc @ [word_of_int byteVal]))"
  by pat_completeness auto

termination
  by (relation "measure (\<lambda>(s, acc). length s)") auto

declare binaryStringToBytes_loop.simps [simp del]

definition binaryStringToBytes :: "string \<Rightarrow> error + byte list" where
  "binaryStringToBytes binStr =
     (if length binStr mod 8 \<noteq> 0 then Inl ErrBinaryString
      else binaryStringToBytes_loop binStr [])"


section \<open>Library functions: \<open>strings.Split\<close> and \<open>strings.Join\<close> with a one-character separator\<close>

text \<open>
  \<open>Split\<close> cuts at every occurrence of the separator and keeps empty pieces; a string
  without the separator (also the empty string) gives one piece.
\<close>

fun strings_Split :: "string \<Rightarrow> char \<Rightarrow> string list" where
  "strings_Split [] sep = [[]]"
| "strings_Split (c # cs) sep =
     (if c = sep then [] # strings_Split cs sep
      else (case strings_Split cs sep of
              [] \<Rightarrow> [[c]]
            | w # ws \<Rightarrow> (c # w) # ws))"

fun strings_Join :: "string list \<Rightarrow> string \<Rightarrow> string" where
  "strings_Join [] sep = []"
| "strings_Join [x] sep = x"
| "strings_Join (x # y # ys) sep = x @ sep @ strings_Join (y # ys) sep"

section \<open>Library functions: \<open>sort.Search\<close> and \<open>sort.SearchStrings\<close>\<close>

text \<open>
  The loop of \<open>sort.Search\<close> with its two bounds: \<open>h\<close> is the midpoint, the lower
  bound moves above it when \<open>f h\<close> is false, the upper bound down to it otherwise.
\<close>

function sort_Search_loop :: "nat \<Rightarrow> nat \<Rightarrow> (nat \<Rightarrow> bool) \<Rightarrow> nat" where
  "sort_Search_loop i j f =
     (if i < j then
        (let h = (i + j) div 2
         in if \<not> f h then sort_Search_loop (h + 1) j f else sort_Search_loop i h f)
      else i)"
  by pat_completeness auto

termination
  by (relation "measure (\<lambda>(i, j, f). j - i)") auto

declare sort_Search_loop.simps [simp del]

definition sort_Search :: "nat \<Rightarrow> (nat \<Rightarrow> bool) \<Rightarrow> nat" where
  "sort_Search n f = sort_Search_loop 0 n f"

definition sort_SearchStrings :: "string list \<Rightarrow> string \<Rightarrow> nat" where
  "sort_SearchStrings a x = sort_Search (length a) (\<lambda>i. a ! i \<ge> x)"

section \<open>Word-index lookup\<close>

definition stringBinarySearch :: "string list \<Rightarrow> string \<Rightarrow> int" where
  "stringBinarySearch sl elem =
     (let idx = sort_SearchStrings sl elem
      in if idx \<noteq> length sl \<and> sl ! idx = elem then int idx else - 1)"

section \<open>Entropy generator\<close>

definition entropyBitLenMap :: "int \<rightharpoonup> bool" where
  "entropyBitLenMap = [128 \<mapsto> True, 160 \<mapsto> True, 192 \<mapsto> True, 224 \<mapsto> True, 256 \<mapsto> True]"

text \<open>Reading a \<open>map[int]bool\<close>: a missing key reads as \<open>false\<close>.\<close>

definition map_lookup :: "(int \<rightharpoonup> bool) \<Rightarrow> int \<Rightarrow> bool" where
  "map_lookup m k = (case m k of None \<Rightarrow> False | Some b \<Rightarrow> b)"

definition validateEntropyBitLen :: "int \<Rightarrow> error option" where
  "validateEntropyBitLen bitLen =
     (if \<not> map_lookup entropyBitLenMap bitLen then Some ErrEntropyBitLen else None)"

text \<open>
  The random source is a parameter: asked for \<open>n\<close> bytes it gives the bytes it has read
  and its error, if any.  \<open>rand.Read\<close> writes them into the zeroed buffer it is given,
  whose length does not change.
\<close>

type_synonym rand_source = "nat \<Rightarrow> byte list \<times> error option"

definition rand_Read :: "rand_source \<Rightarrow> byte list \<Rightarrow> byte list \<times> error option" where
  "rand_Read rd buf =
     (let n = length buf;
          (got, err) = rd n
      in (take n got @ drop (length got) buf, err))"

text \<open>
  \<open>GenerateEntropy\<close> returns a slice and an error: \<open>None\<close> in the first component is
  the nil slice.
\<close>

definition GenerateEntropy :: "rand_source \<Rightarrow> int \<Rightarrow> byte list option \<times> error option" where
  "GenerateEntropy rd bitLen =
     (case validateEntropyBitLen bitLen of
        Some err \<Rightarrow> (None, Some err)
      | None \<Rightarrow>
          (let entropy0 = replicate (nat (bitLen div 8)) 0;
               (entropy, err) = rand_Read rd entropy0
           in (Some entropy, err)))"

section \<open>Mnemonic codec\<close>

definition wordsNumMap :: "int \<rightharpoonup> bool" where
  "wordsNumMap = [12 \<mapsto> True, 15 \<mapsto> True, 18 \<mapsto> True, 21 \<mapsto> True, 24 \<mapsto> True]"

definition validateWordsNum :: "int \<Rightarrow> error option" where
  "validateWordsNum wordsNum =
     (if \<not> map_lookup wordsNumMap wordsNum then Some ErrWordsNum else None)"

text \<open>
  SHA-256 is a parameter \<open>sha\<close> of the functions that hash.  \<open>entropyChecksumBinStr\<close>
  slices the hash string up to a quarter of the length of its argument, which panics
  when that is beyond the end of the string.
\<close>

definition entropyChecksumBinStr :: "(byte list \<Rightarrow> byte list) \<Rightarrow> byte list \<Rightarrow> error + string" where
  "entropyChecksumBinStr sha sl =
     (let hash = sha sl;
          hashStr = bytesToBinaryString hash;
          chksumBitLen = length sl div 4
      in if chksumBitLen > length hashStr then Inl Panic else Inr (take chksumBitLen hashStr))"

text \<open>
  The loop of \<open>MnemonicFromEntropy\<close> over the groups of 11 bits.  The word list is a
  parameter \<open>wl\<close>; indexing it out of range panics.  The error of \<open>ParseInt\<close> is dropped
  and its value used.
\<close>

function MnemonicFromEntropy_loop ::
  "string list \<Rightarrow> string \<Rightarrow> nat \<Rightarrow> nat \<Rightarrow> string list \<Rightarrow> error + string list" where
  "MnemonicFromEntropy_loop wl mnemonicBinStr i mnemonicLen mnemonic =
     (if i < mnemonicLen then
        (let wordStrBin = take ((i + 1) * wordBitLen - i * wordBitLen) (drop (i * wordBitLen) mnemonicBinStr);
             wordIdx = fst (ParseInt_2_16 wordStrBin)
         in if wordIdx < 0 \<or> nat wordIdx \<ge> length wl then Inl Panic
            else MnemonicFromEntropy_loop wl mnemonicBinStr (i + 1) mnemonicLen
                   (mnemonic @ [wl ! nat wordIdx]))
      else Inr mnemonic)"
  by pat_completeness auto

termination
  by (relation "measure (\<lambda>(wl, s, i, n, acc). n - i)") auto

declare MnemonicFromEntropy_loop.simps [simp del]

definition MnemonicFromEntropy ::
  "string list \<Rightarrow> (byte list \<Rightarrow> byte list) \<Rightarrow> byte list \<Rightarrow> error + Mnemonic" where
  "MnemonicFromEntropy wl sha entropy =
     (case validateEntropyBitLen (int (length entropy) * 8) of
        Some err \<Rightarrow> Inl err
      | None \<Rightarrow>
          (let entropyBinStr = bytesToBinaryString entropy
           in case entropyChecksumBinStr sha entropy of
                Inl p \<Rightarrow> Inl p
              | Inr chksumBinStr \<Rightarrow>
                  (let mnemonicBinStr = entropyBinStr @ chksumBinStr;
                       mnemonicLen = length mnemonicBinStr div wordBitLen
                   in case MnemonicFromEntropy_loop wl mnemonicBinStr 0 mnemonicLen [] of
                        Inl p \<Rightarrow> Inl p
                      | Inr mnemonic \<Rightarrow> Inr \<lparr>Words = strings_Join mnemonic '' ''\<rparr>)))"

definition MnemonicFromString :: "string \<Rightarrow> Mnemonic" where
  "MnemonicFromString mnemonic = \<lparr>Words = mnemonic\<rparr>"

text \<open>Go's integer division truncates towards zero.\<close>

definition quo :: "int \<Rightarrow> int \<Rightarrow> int" where
  "quo a b = (if (a < 0) = (b < 0) then \<bar>a\<bar> div \<bar>b\<bar> else - (\<bar>a\<bar> div \<bar>b\<bar>))"

text \<open>
  \<open>MnemonicFromWordsNum\<close> drops the error of \<open>GenerateEntropy\<close> and encodes the slice
  it returned (the nil slice has length 0).
\<close>

definition MnemonicFromWordsNum ::
  "rand_source \<Rightarrow> string list \<Rightarrow> (byte list \<Rightarrow> byte list) \<Rightarrow> int \<Rightarrow> error + Mnemonic" where
  "MnemonicFromWordsNum rd wl sha wordsNum =
     (case validateWordsNum wordsNum of
        Some err \<Rightarrow> Inl err
      | None \<Rightarrow>
          (let entropyBitLen = (wordsNum * 11) - quo wordsNum 3;
               entropy = (case fst (GenerateEntropy rd entropyBitLen) of None \<Rightarrow> [] | Some e \<Rightarrow> e)
           in MnemonicFromEntropy wl sha entropy))"

text \<open>The loop of \<open>getBinaryStrings\<close> over the words, with the string buffer.\<close>

fun getBinaryStrings_loop :: "string list \<Rightarrow> string list \<Rightarrow> string \<Rightarrow> error + string" where
  "getBinaryStrings_loop wl [] strBuf = Inr strBuf"
| "getBinaryStrings_loop wl (word # rest) strBuf =
     (let wordIdx = stringBinarySearch wl word
      in if wordIdx = - 1 then Inl ErrInvalidWord
         else getBinaryStrings_loop wl rest (strBuf @ sprintf_b 11 wordIdx))"

definition getBinaryStrings :: "string list \<Rightarrow> Mnemonic \<Rightarrow> error + string \<times> string" where
  "getBinaryStrings wl mnemonic =
     (let wordsList = strings_Split (Words mnemonic) (CHR '' '')
      in case validateWordsNum (int (length wordsList)) of
           Some err \<Rightarrow> Inl err
         | None \<Rightarrow>
             (case getBinaryStrings_loop wl wordsList [] of
                Inl err \<Rightarrow> Inl err
              | Inr mnemonicBinStr \<Rightarrow>
                  (let chksumLen = length mnemonicBinStr div 33;
                       chksumIdx = length mnemonicBinStr - chksumLen
                   in Inr (take chksumIdx mnemonicBinStr, drop chksumIdx mnemonicBinStr))))"

text \<open>
  \<open>ToEntropy\<close> and \<open>Validate\<close> drop the error of \<open>binaryStringToBytes\<close> and go on with
  the slice it returned, nil when it failed.
\<close>

definition ToEntropy ::
  "string list \<Rightarrow> (byte list \<Rightarrow> byte list) \<Rightarrow> Mnemonic \<Rightarrow> error + byte list" where
  "ToEntropy wl sha mnemonic =
     (case getBinaryStrings wl mnemonic of
        Inl err \<Rightarrow> Inl err
      | Inr (entropyBinStr, chksumBinStr) \<Rightarrow>
          (let entropy = (case binaryStringToBytes entropyBinStr of Inl e \<Rightarrow> [] | Inr bs \<Rightarrow> bs)
           in case entropyChecksumBinStr sha entropy of
                Inl p \<Rightarrow> Inl p
              | Inr chksumComp \<Rightarrow>
                  if chksumComp \<noteq> chksumBinStr then Inl ErrChecksum else Inr entropy))"

definition Validate ::
  "string list \<Rightarrow> (byte list \<Rightarrow> byte list) \<Rightarrow> Mnemonic \<Rightarrow> error option" where
  "Validate wl sha mnemonic =
     (case getBinaryStrings wl mnemonic of
        Inl err \<Rightarrow> Some err
      | Inr (entropyBinStr, chksumBinStr) \<Rightarrow>
          (let entropy = (case binaryStringToBytes entropyBinStr of Inl e \<Rightarrow> [] | Inr bs \<Rightarrow> bs)
           in case entropyChecksumBinStr sha entropy of
                Inl p \<Rightarrow> Some p
              | Inr chksumComp \<Rightarrow>
                  if chksumComp \<noteq> chksumBinStr then Some ErrChecksum else None))"

text \<open>\<open>IsValid\<close> returns a boolean unless \<open>Validate\<close> panics.\<close>

definition IsValid ::
  "string list \<Rightarrow> (byte list \<Rightarrow> byte list) \<Rightarrow> Mnemonic \<Rightarrow> error + bool" where
  "IsValid wl sha mnemonic =
     (case Validate wl sha mnemonic of
        Some Panic \<Rightarrow> Inl Panic
      | r \<Rightarrow> Inr (r = None))"

section \<open>Seed deriver\<close>

text \<open>
  The hash constructors that can be handed to \<open>pbkdf2.Key\<close>, which is a parameter \<open>kdf\<close>
  taking password, salt, iteration count, key length and hash.
\<close>

datatype hash_new = sha1_New | sha256_New | sha512_New

type_synonym pbkdf2_Key = "byte list \<Rightarrow> byte list \<Rightarrow> nat \<Rightarrow> nat \<Rightarrow> hash_new \<Rightarrow> byte list"

text \<open>The conversion \<open>[]byte(s)\<close> of a string to its bytes.\<close>

definition bytes_of_string :: "string \<Rightarrow> byte list" where
  "bytes_of_string s = map of_char s"

definition GenerateSeed ::
  "string list \<Rightarrow> (byte list \<Rightarrow> byte list) \<Rightarrow> pbkdf2_Key \<Rightarrow> Mnemonic \<Rightarrow> string \<Rightarrow> error + byte list" where
  "GenerateSeed wl sha kdf mnemonic passphrase =
     (case Validate wl sha mnemonic of
        Some err \<Rightarrow> Inl err
      | None \<Rightarrow>
          (let salt = seedSaltMod @ passphrase
           in Inr (kdf (bytes_of_string (Words mnemonic)) (bytes_of_string salt)
                     seedPbkdf2Round seedPbkdf2KeyLen sha512_New)))"


section \<open>Notions of the specification\<close>

text \<open>
  The \<open>p\<close> binary digits of a number, most significant first, and the value of a string
  of binary digits read most significant first.
\<close>

definition bits_be :: "nat \<Rightarrow> nat \<Rightarrow> string" where
  "bits_be p n = map (\<lambda>k. if bit n k then CHR ''1'' else CHR ''0'') (rev [0..<p])"

definition be_value :: "string \<Rightarrow> nat" where
  "be_value s = foldl (\<lambda>a c. 2 * a + (if c = CHR ''1'' then 1 else 0)) 0 s"

definition is_bit_string :: "string \<Rightarrow> bool" where
  "is_bit_string s = list_all (\<lambda>c. c = CHR ''0'' \<or> c = CHR ''1'') s"

text \<open>
  A group of characters that is a sign followed by binary digits.  \<open>strconv.ParseInt\<close>
  accepts such a group, which the statements on \<open>binaryStringToBytes\<close> set apart.
\<close>

definition signed_group :: "string \<Rightarrow> bool" where
  "signed_group g \<longleftrightarrow>
     (case g of
        [] \<Rightarrow> False
      | c # cs \<Rightarrow> (c = CHR ''+'' \<or> c = CHR ''-'') \<and> cs \<noteq> [] \<and> is_bit_string cs)"

text \<open>The bits of a byte sequence: eight per byte, most significant first, in byte order.\<close>

definition spec_bits :: "byte list \<Rightarrow> string" where
  "spec_bits bs = concat (map (\<lambda>b. map (\<lambda>k. if bit b k then CHR ''1'' else CHR ''0'') (rev [0..<8])) bs)"

text \<open>
  The word indices of the specification's encoding: the entropy bits followed by the
  leading \<open>bits/32\<close> bits of the hash, cut into groups of 11 bits, each read as a
  big-endian number.
\<close>

definition spec_word_indices :: "(byte list \<Rightarrow> byte list) \<Rightarrow> byte list \<Rightarrow> nat list" where
  "spec_word_indices sha e =
     (let bits = 8 * length e;
          combined = spec_bits e @ take (bits div 32) (spec_bits (sha e))
      in map (\<lambda>i. be_value (take 11 (drop (11 * i) combined))) [0..<(bits + bits div 32) div 11])"

text \<open>The checksum of the specification: the leading \<open>bits/32\<close> bits of the hash.\<close>

definition spec_checksum :: "(byte list \<Rightarrow> byte list) \<Rightarrow> byte list \<Rightarrow> string" where
  "spec_checksum sha e = take (length e div 4) (spec_bits (sha e))"

text \<open>
  The specification's decoding: the position of a word in the word list, the 11-bit
  groups of the words in order, the bytes of a bit string, and the split of the combined
  bits after \<open>N*11 - N*11/33\<close> bits.
\<close>

definition word_index :: "string list \<Rightarrow> string \<Rightarrow> nat" where
  "word_index wl w = length (takeWhile (\<lambda>x. x \<noteq> w) wl)"

definition spec_combined :: "string list \<Rightarrow> string list \<Rightarrow> string" where
  "spec_combined wl ws = concat (map (\<lambda>w. bits_be 11 (word_index wl w)) ws)"

definition spec_bytes :: "string \<Rightarrow> byte list" where
  "spec_bytes s = map (\<lambda>i. of_nat (be_value (take 8 (drop (8 * i) s)))) [0..<length s div 8]"

definition spec_entropy :: "string list \<Rightarrow> string list \<Rightarrow> byte list" where
  "spec_entropy wl ws =
     spec_bytes (take (length ws * 11 - length ws * 11 div 33) (spec_combined wl ws))"

definition spec_checksum_bits :: "string list \<Rightarrow> string list \<Rightarrow> string" where
  "spec_checksum_bits wl ws =
     drop (length ws * 11 - length ws * 11 div 33) (spec_combined wl ws)"

text \<open>
  Modelled from the spec: the word list \<open>wordsListEn\<close>, whose file is not among the
  sources, is the parameter \<open>wl\<close> of the functions that use it.  The specification
  describes it as a lexicographically sorted array of exactly 2048 fixed strings, the
  words of a mnemonic being separated by spaces: 2048 entries in strictly ascending
  order, none of them containing a space.
\<close>

definition wordlist_ok :: "string list \<Rightarrow> bool" where
  "wordlist_ok wl \<longleftrightarrow>
     length wl = 2048 \<and> sorted wl \<and> distinct wl \<and> list_all (\<lambda>w. CHR '' '' \<notin> set w) wl"

text \<open>
  A word list of that shape to instantiate the theorems with, the words \<open>a\<close>, \<open>aa\<close>,
  \<open>aaa\<close>, ..., and a function with 32 bytes of output in the place of the hash.
\<close>

definition sample_wordlist :: "string list" where
  "sample_wordlist = map (\<lambda>i. replicate (Suc i) (CHR ''a'')) [0..<2048]"

definition sample_sha :: "byte list \<Rightarrow> byte list" where
  "sample_sha bs = replicate 32 (of_nat (length bs))"

section \<open>Binary digits\<close>

lemma bits_be_0 [simp]: "bits_be 0 n = []"
  by (simp add: bits_be_def)

lemma bits_be_Suc: "bits_be (Suc p) n = bits_be p (n div 2) @ [bin_digit (n mod 2)]"
proof -
  have "[0..<Suc p] = 0 # map Suc [0..<p]"
    by (simp add: upt_conv_Cons map_Suc_upt del: upt_Suc)
  then have "rev [0..<Suc p] = map Suc (rev [0..<p]) @ [0]"
    by (simp add: rev_map)
  then show ?thesis
    by (simp add: bits_be_def bin_digit_def bit_Suc bit_0 o_def odd_iff_mod_2_eq_one)
qed

lemma length_bits_be [simp]: "length (bits_be p n) = p"
  by (simp add: bits_be_def)

lemma is_bit_string_bits_be [simp]: "is_bit_string (bits_be p n)"
  by (auto simp: bits_be_def is_bit_string_def list_all_iff)

lemma is_bit_string_append [simp]: "is_bit_string (xs @ ys) \<longleftrightarrow> is_bit_string xs \<and> is_bit_string ys"
  by (simp add: is_bit_string_def)

lemma is_bit_string_take: "is_bit_string s \<Longrightarrow> is_bit_string (take n s)"
  by (auto simp: is_bit_string_def list_all_iff dest: in_set_takeD)

lemma is_bit_string_drop: "is_bit_string s \<Longrightarrow> is_bit_string (drop n s)"
  by (auto simp: is_bit_string_def list_all_iff dest: in_set_dropD)

lemma bits_be_zero: "bits_be p 0 = replicate p (CHR ''0'')"
  by (induction p) (simp_all add: bits_be_Suc bin_digit_def replicate_append_same)

lemma sprintf_b_bits_be:
  "n < 2 ^ p \<Longrightarrow> 0 < p \<Longrightarrow> sprintf_b p (int n) = bits_be p n"
proof -
  have pad: "n < 2 ^ p \<Longrightarrow> 0 < p \<Longrightarrow>
      replicate (p - length (bin_digits n)) (CHR ''0'') @ bin_digits n = bits_be p n" for p n
  proof (induction p arbitrary: n)
    case 0
    then show ?case by simp
  next
    case (Suc p)
    show ?case
    proof (cases "n < 2")
      case True
      then have "n div 2 = 0" "n mod 2 = n" by simp_all
      with True show ?thesis
        by (simp add: bin_digits.simps [of n] bits_be_Suc bits_be_zero)
    next
      case False
      with Suc.prems have p: "0 < p" by (cases p) auto
      from Suc.prems have lt: "n div 2 < 2 ^ p" by simp
      have "length (bin_digits n) = Suc (length (bin_digits (n div 2)))"
        using False by (simp add: bin_digits.simps [of n])
      with False Suc.IH [OF lt p] show ?thesis
        by (simp add: bin_digits.simps [of n] bits_be_Suc)
    qed
  qed
  assume "n < 2 ^ p" "0 < p"
  then show ?thesis using pad [of n p] by (simp add: sprintf_b_def Let_def)
qed

lemma be_value_snoc: "be_value (s @ [c]) = 2 * be_value s + (if c = CHR ''1'' then 1 else 0)"
  by (simp add: be_value_def)

lemma be_value_bits_be: "be_value (bits_be p n) = n mod 2 ^ p"
proof (induction p arbitrary: n)
  case 0
  then show ?case by (simp add: be_value_def)
next
  case (Suc p)
  have "n mod 2 ^ Suc p = 2 * ((n div 2) mod 2 ^ p) + n mod 2"
    by (simp add: mod_mult2_eq)
  with Suc show ?case
    by (simp add: bits_be_Suc be_value_snoc bin_digit_def)
qed

lemma be_value_less: "be_value s < 2 ^ length s"
proof (induction s rule: rev_induct)
  case Nil
  then show ?case by (simp add: be_value_def)
next
  case (snoc c s)
  then show ?case by (simp add: be_value_snoc)
qed

lemma bits_be_be_value: "is_bit_string s \<Longrightarrow> bits_be (length s) (be_value s) = s"
proof (induction s rule: rev_induct)
  case Nil
  then show ?case by simp
next
  case (snoc c s)
  then have c: "c = CHR ''0'' \<or> c = CHR ''1''" and s: "is_bit_string s"
    by (simp_all add: is_bit_string_def)
  from c snoc.IH [OF s] show ?case
    by (auto simp: bits_be_Suc be_value_snoc bin_digit_def)
qed


lemma foldl_bit_step_ge:
  "a \<le> foldl (\<lambda>a c. 2 * a + (if c = CHR ''1'' then 1 else 0)) (a::nat) s"
proof (induction s arbitrary: a)
  case Nil
  then show ?case by simp
next
  case (Cons c s)
  have "a \<le> 2 * a + (if c = CHR ''1'' then 1 else 0)" by simp
  also have "\<dots> \<le> foldl (\<lambda>a c. 2 * a + (if c = CHR ''1'' then 1 else 0)) (2 * a + (if c = CHR ''1'' then 1 else 0)) s"
    by (rule Cons.IH)
  finally show ?case by simp
qed

lemma parseUint_loop_bits:
  "is_bit_string s \<Longrightarrow>
   foldl (\<lambda>a c. 2 * a + (if c = CHR ''1'' then 1 else 0)) a s \<le> 65535 \<Longrightarrow>
   parseUint_loop a s = (foldl (\<lambda>a c. 2 * a + (if c = CHR ''1'' then 1 else 0)) a s, None)"
proof (induction s arbitrary: a)
  case Nil
  then show ?case by simp
next
  case (Cons c s)
  let ?a1 = "2 * a + (if c = CHR ''1'' then 1 else 0)"
  from Cons.prems(1) have c: "c = CHR ''0'' \<or> c = CHR ''1''" and s: "is_bit_string s"
    by (simp_all add: is_bit_string_def)
  from Cons.prems(2) have le: "foldl (\<lambda>a c. 2 * a + (if c = CHR ''1'' then 1 else 0)) ?a1 s \<le> 65535"
    by simp
  have "?a1 \<le> foldl (\<lambda>a c. 2 * a + (if c = CHR ''1'' then 1 else 0)) ?a1 s"
    by (rule foldl_bit_step_ge)
  with le have a1: "?a1 \<le> 65535" by linarith
  from Cons.IH [OF s le] c a1 show ?case
    by (auto simp: Let_def)
qed

lemma ParseInt_bits:
  assumes "is_bit_string s" and "s \<noteq> []" and "length s \<le> 15"
  shows "ParseInt_2_16 s = (int (be_value s), None)"
proof -
  have "be_value s < 2 ^ length s" by (rule be_value_less)
  also have "(2::nat) ^ length s \<le> 2 ^ 15"
    using assms(3) by (intro power_increasing) simp_all
  finally have lt: "be_value s < 32768" by simp
  then have "parseUint_loop 0 s = (be_value s, None)"
    using parseUint_loop_bits [OF assms(1), of 0] by (simp add: be_value_def)
  moreover from assms(1,2) have "hd s = CHR ''0'' \<or> hd s = CHR ''1''"
    by (cases s) (simp_all add: is_bit_string_def)
  ultimately show ?thesis
    using assms(2) lt by (auto simp: ParseInt_2_16_def ParseUint_2_16_def)
qed

lemma sprintf_b_byte: "sprintf_b 8 (uint (b::byte)) = bits_be 8 (unat b)"
proof -
  have "unat b < 2 ^ 8" using unsigned_less [of b] by simp
  then have "sprintf_b 8 (int (unat b)) = bits_be 8 (unat b)"
    by (rule sprintf_b_bits_be) simp
  then show ?thesis by simp
qed

lemma bytesToBinaryString_Nil [simp]: "bytesToBinaryString [] = []"
  by (simp add: bytesToBinaryString_def)

lemma bytesToBinaryString_Cons:
  "bytesToBinaryString (b # bs) = bits_be 8 (unat b) @ bytesToBinaryString bs"
  by (simp add: bytesToBinaryString_def sprintf_b_byte)

lemma bytesToBinaryString_append:
  "bytesToBinaryString (xs @ ys) = bytesToBinaryString xs @ bytesToBinaryString ys"
  by (simp add: bytesToBinaryString_def)

lemma length_bytesToBinaryString [simp]: "length (bytesToBinaryString bs) = 8 * length bs"
  by (induction bs) (simp_all add: bytesToBinaryString_Cons)

lemma is_bit_string_bytesToBinaryString [simp]: "is_bit_string (bytesToBinaryString bs)"
  by (induction bs) (simp_all add: bytesToBinaryString_Cons is_bit_string_def [of "[]"])

lemma bytesToBinaryString_spec_bits: "bytesToBinaryString bs = spec_bits bs"
proof -
  have "bits_be 8 (unat b) = map (\<lambda>k. if bit b k then CHR ''1'' else CHR ''0'') (rev [0..<8])" for b :: byte
    unfolding bits_be_def by (rule map_cong) (simp_all add: bit_unsigned_iff)
  then show ?thesis
    by (simp add: bytesToBinaryString_def spec_bits_def sprintf_b_byte)
qed

lemma binaryStringToBytes_loop_bytes:
  "binaryStringToBytes_loop (bytesToBinaryString bs) acc = Inr (acc @ bs)"
proof (induction bs arbitrary: acc)
  case Nil
  then show ?case by (simp add: binaryStringToBytes_loop.simps)
next
  case (Cons b bs)
  have p: "ParseInt_2_16 (bits_be 8 (unat b)) = (int (unat b), None)"
  proof -
    have "bits_be 8 (unat b) \<noteq> []"
      using length_bits_be [of 8 "unat b"] by (metis length_0_conv zero_neq_numeral)
    then have "ParseInt_2_16 (bits_be 8 (unat b)) = (int (be_value (bits_be 8 (unat b))), None)"
      by (intro ParseInt_bits) simp_all
    moreover have "unat b < 2 ^ 8" using unsigned_less [of b] by simp
    ultimately show ?thesis by (simp add: be_value_bits_be)
  qed
  have ne: "bits_be 8 (unat b) @ bytesToBinaryString bs \<noteq> []"
    using length_bits_be [of 8 "unat b"] by (metis append_is_Nil_conv length_0_conv zero_neq_numeral)
  show ?case
    using ne Cons.IH [of "acc @ [b]"]
    by (simp add: bytesToBinaryString_Cons binaryStringToBytes_loop.simps [of "bits_be 8 (unat b) @ bytesToBinaryString bs"] p)
qed

lemma binaryStringToBytes_bytes: "binaryStringToBytes (bytesToBinaryString bs) = Inr bs"
  by (simp add: binaryStringToBytes_def binaryStringToBytes_loop_bytes)

text \<open>Every bit string of a length divisible by 8 is the bit string of some bytes.\<close>

lemma bit_string_is_bytes:
  "is_bit_string s \<Longrightarrow> length s = 8 * n \<Longrightarrow>
   bytesToBinaryString (map (\<lambda>i. of_nat (be_value (take 8 (drop (8 * i) s)))) [0..<n]) = s"
proof (induction n arbitrary: s)
  case 0
  then show ?case by simp
next
  case (Suc n)
  let ?f = "\<lambda>s i. (of_nat (be_value (take 8 (drop (8 * i) s))) :: byte)"
  have up: "[0..<Suc n] = 0 # map Suc [0..<n]"
    by (simp add: upt_conv_Cons map_Suc_upt del: upt_Suc)
  have shift: "?f s (Suc i) = ?f (drop 8 s) i" for i
    by (simp add: add.commute)
  have t8: "length (take 8 s) = 8" using Suc.prems(2) by simp
  have bt: "is_bit_string (take 8 s)" using Suc.prems(1) by (rule is_bit_string_take)
  have "be_value (take 8 s) < 2 ^ length (take 8 s)" by (rule be_value_less)
  then have lt: "be_value (take 8 s) < 256" using t8 by simp
  then have un: "unat (?f s 0) = be_value (take 8 s)"
    by (simp add: unsigned_of_nat take_bit_nat_eq_self)
  have hd8: "bits_be 8 (unat (?f s 0)) = take 8 s"
    using bits_be_be_value [OF bt] t8 un by simp
  have tl8: "bytesToBinaryString (map (?f (drop 8 s)) [0..<n]) = drop 8 s"
    using Suc.prems by (intro Suc.IH) (simp_all add: is_bit_string_drop)
  have "map (?f s) [0..<Suc n] = ?f s 0 # map (?f (drop 8 s)) [0..<n]"
    unfolding up by (simp add: o_def shift add.commute del: upt_Suc)
  then have "bytesToBinaryString (map (?f s) [0..<Suc n]) = take 8 s @ drop 8 s"
    using hd8 tl8 by (simp only: bytesToBinaryString_Cons)
  then show ?case by simp
qed


lemma binaryStringToBytes_bit_string:
  assumes "is_bit_string s" and "length s mod 8 = 0"
  shows "binaryStringToBytes s =
         Inr (map (\<lambda>i. of_nat (be_value (take 8 (drop (8 * i) s)))) [0..<length s div 8])"
proof -
  from assms(2) have "length s = 8 * (length s div 8)" by presburger
  from bit_string_is_bytes [OF assms(1) this] binaryStringToBytes_bytes
  show ?thesis by metis
qed

lemma parseUint_loop_None_bits:
  "snd (parseUint_loop a s) = None \<Longrightarrow> is_bit_string s"
proof (induction s arbitrary: a)
  case Nil
  then show ?case by (simp add: is_bit_string_def)
next
  case (Cons c s)
  then show ?case
    by (auto simp: is_bit_string_def Let_def split: if_splits)
qed

lemma parseUint_loop_bound:
  "(a + 1) * 2 ^ length s \<le> 65536 \<Longrightarrow>
   snd (parseUint_loop a s) \<noteq> Some ErrRange \<and> fst (parseUint_loop a s) < (a + 1) * 2 ^ length s"
proof (induction s arbitrary: a)
  case Nil
  then show ?case by simp
next
  case (Cons c s)
  let ?a1 = "2 * a + (if c = CHR ''1'' then 1 else 0)"
  have "?a1 + 1 \<le> 2 * (a + 1)" by simp
  then have "(?a1 + 1) * 2 ^ length s \<le> (2 * (a + 1)) * 2 ^ length s"
    by (rule mult_le_mono1)
  then have le: "(?a1 + 1) * 2 ^ length s \<le> (a + 1) * 2 ^ length (c # s)"
    by (simp add: mult.assoc mult.left_commute)
  with Cons.prems have b: "(?a1 + 1) * 2 ^ length s \<le> 65536" by linarith
  have "(?a1 + 1) * 1 \<le> (?a1 + 1) * 2 ^ length s"
    by (rule mult_le_mono2) simp
  with b have a1: "?a1 \<le> 65535" by simp
  have pos: "0 < (a + 1) * 2 ^ length (c # s)" by simp
  from Cons.IH [OF b] le a1 pos show ?case
    by (auto simp: Let_def simp del: length_Cons power_Suc)
qed

lemma ParseInt_no_range:
  assumes "length s \<le> 15"
  shows "snd (ParseInt_2_16 s) \<noteq> Some ErrRange"
proof (cases "s = []")
  case True
  then show ?thesis by (simp add: ParseInt_2_16_def)
next
  case False
  define t where "t = (if hd s = CHR ''+'' \<or> hd s = CHR ''-'' then tl s else s)"
  have "length t \<le> 15" using assms by (auto simp: t_def)
  then have "(2::nat) ^ length t \<le> 2 ^ 15" by (intro power_increasing) simp_all
  then have "(0 + 1) * (2::nat) ^ length t \<le> 65536" by simp
  from parseUint_loop_bound [OF this]
  have r: "snd (parseUint_loop 0 t) \<noteq> Some ErrRange" and "fst (parseUint_loop 0 t) < 2 ^ length t"
    by simp_all
  with \<open>(2::nat) ^ length t \<le> 2 ^ 15\<close> have v: "fst (parseUint_loop 0 t) < 32768" by simp
  show ?thesis
  proof (cases "t = []")
    case True
    with False show ?thesis
      by (simp add: ParseInt_2_16_def ParseUint_2_16_def t_def [symmetric] Let_def)
  next
    case nt: False
    obtain un err where p: "parseUint_loop 0 t = (un, err)" by (cases "parseUint_loop 0 t")
    with r v have "err \<noteq> Some ErrRange" "un < 32768" by simp_all
    with False nt p show ?thesis
      by (simp add: ParseInt_2_16_def ParseUint_2_16_def t_def [symmetric] Let_def)
  qed
qed

lemma parseUint_loop_range:
  "snd (parseUint_loop a s) = Some ErrRange \<Longrightarrow> fst (parseUint_loop a s) = 65535"
  by (induction s arbitrary: a) (auto simp: Let_def split: if_splits)

lemma ParseInt_None_form:
  assumes "snd (ParseInt_2_16 g) = None"
  shows "is_bit_string g \<or> signed_group g"
proof (cases "g = []")
  case True
  with assms show ?thesis by (simp add: ParseInt_2_16_def)
next
  case False
  define t where "t = (if hd g = CHR ''+'' \<or> hd g = CHR ''-'' then tl g else g)"
  obtain un err where p: "ParseUint_2_16 t = (un, err)" by (cases "ParseUint_2_16 t")
  have "err \<noteq> Some ErrRange"
  proof
    assume r: "err = Some ErrRange"
    with p have "t \<noteq> []" by (auto simp: ParseUint_2_16_def split: if_splits)
    with p r have "snd (parseUint_loop 0 t) = Some ErrRange" "fst (parseUint_loop 0 t) = un"
      by (simp_all add: ParseUint_2_16_def)
    with parseUint_loop_range [of 0 t] have "un = 65535" by simp
    with assms False p r show False
      by (simp add: ParseInt_2_16_def t_def [symmetric] Let_def split: if_splits)
  qed
  moreover from assms False p have "err \<noteq> Some ErrSyntax"
    by (auto simp: ParseInt_2_16_def t_def [symmetric] Let_def split: if_splits)
  ultimately have "err = None"
    by (cases err) (auto intro: num_err.exhaust)
  with p have t: "t \<noteq> []" "snd (parseUint_loop 0 t) = None"
    by (auto simp: ParseUint_2_16_def split: if_splits)
  from t(2) have "is_bit_string t" by (rule parseUint_loop_None_bits)
  moreover from False obtain c cs where "g = c # cs" by (cases g) auto
  ultimately show ?thesis
    using t(1) by (auto simp: t_def signed_group_def split: if_splits)
qed

lemma ParseInt_syntax_error:
  assumes "length g \<le> 15" and "\<not> is_bit_string g" and "\<not> signed_group g"
  shows "\<exists>v. ParseInt_2_16 g = (v, Some ErrSyntax)"
proof -
  obtain v err where p: "ParseInt_2_16 g = (v, err)" by (cases "ParseInt_2_16 g")
  from ParseInt_None_form [of g] assms(2,3) p have "err \<noteq> None" by auto
  moreover from ParseInt_no_range [OF assms(1)] p have "err \<noteq> Some ErrRange" by simp
  ultimately have "err = Some ErrSyntax"
    by (cases err) (auto intro: num_err.exhaust)
  with p show ?thesis by simp
qed

text \<open>
  The loop stops at the first group that is neither binary digits nor a signed group, when
  the groups before it are binary digits.
\<close>

lemma binaryStringToBytes_loop_first_bad:
  "i < length s div 8 \<Longrightarrow>
   \<forall>j<i. is_bit_string (take 8 (drop (8 * j) s)) \<Longrightarrow>
   \<not> is_bit_string (take 8 (drop (8 * i) s)) \<Longrightarrow>
   \<not> signed_group (take 8 (drop (8 * i) s)) \<Longrightarrow>
   binaryStringToBytes_loop s acc = Inl (NumError (take 8 (drop (8 * i) s)) ErrSyntax)"
proof (induction i arbitrary: s acc)
  case 0
  then have ne: "s \<noteq> []" by auto
  have len: "length (take 8 s) \<le> 15" by simp
  from "0.prems"(3,4) have nb: "\<not> is_bit_string (take 8 s)" "\<not> signed_group (take 8 s)"
    by simp_all
  from ParseInt_syntax_error [OF len nb]
  obtain v where "ParseInt_2_16 (take 8 s) = (v, Some ErrSyntax)" by blast
  with ne show ?case
    by (subst binaryStringToBytes_loop.simps) simp
next
  case (Suc i)
  from Suc.prems(1) have l: "16 \<le> length s" by simp
  then have ne: "s \<noteq> []" by auto
  from Suc.prems(2) have b0: "is_bit_string (take 8 s)"
    by (metis drop0 mult_0_right zero_less_Suc)
  from l have "take 8 s \<noteq> []" by auto
  with b0 have p: "ParseInt_2_16 (take 8 s) = (int (be_value (take 8 s)), None)"
    by (intro ParseInt_bits) simp_all
  have shift: "take 8 (drop (8 * j) (drop 8 s)) = take 8 (drop (8 * Suc j) s)" for j
    by (simp add: add.commute)
  have 1: "i < length (drop 8 s) div 8" using Suc.prems(1) by simp
  have 2: "\<forall>j<i. is_bit_string (take 8 (drop (8 * j) (drop 8 s)))"
    unfolding shift using Suc.prems(2) by auto
  have 3: "\<not> is_bit_string (take 8 (drop (8 * i) (drop 8 s)))"
    unfolding shift using Suc.prems(3) .
  have 4: "\<not> signed_group (take 8 (drop (8 * i) (drop 8 s)))"
    unfolding shift using Suc.prems(4) .
  have "binaryStringToBytes_loop s acc =
        binaryStringToBytes_loop (drop 8 s) (acc @ [word_of_int (int (be_value (take 8 s)))])"
    using ne p by (subst binaryStringToBytes_loop.simps) simp
  also have "\<dots> = Inl (NumError (take 8 (drop (8 * i) (drop 8 s))) ErrSyntax)"
    by (rule Suc.IH [OF 1 2 3 4])
  finally show ?case unfolding shift .
qed

text \<open>What the code does on a group with a leading sign: \<open>ParseInt\<close> accepts it.\<close>

lemma binaryStringToBytes_signed:
  "binaryStringToBytes ''+1111111'' = Inr [127]"
  by (simp add: binaryStringToBytes_def binaryStringToBytes_loop.simps ParseInt_2_16_def
      ParseUint_2_16_def)


lemma binaryStringToBytes_loop_not_ErrBinaryString:
  "binaryStringToBytes_loop s acc \<noteq> Inl ErrBinaryString"
proof (induction s acc rule: binaryStringToBytes_loop.induct)
  case (1 s acc)
  show ?case
  proof (cases "s = []")
    case True
    then show ?thesis by (simp add: binaryStringToBytes_loop.simps [of "[]"])
  next
    case False
    obtain v err where p: "ParseInt_2_16 (take 8 s) = (v, err)" by (cases "ParseInt_2_16 (take 8 s)")
    show ?thesis
    proof (cases err)
      case None
      from "1.IH" [OF False refl p [symmetric] None] False p None show ?thesis
        by (simp add: binaryStringToBytes_loop.simps [of s])
    next
      case (Some e)
      with False p show ?thesis
        by (simp add: binaryStringToBytes_loop.simps [of s])
    qed
  qed
qed

text \<open>
  Claim C5, as the code has it.  \<open>binaryStringToBytes\<close> fails with \<open>ErrBinaryString\<close>
  exactly when the length of the string is not a multiple of 8.  When the length is a
  multiple of 8 and every character is \<open>0\<close> or \<open>1\<close>, it succeeds and each group of 8
  digits gives one byte, most significant bit first.  When the length is a multiple of 8
  and the first group of 8 characters that is not made of \<open>0\<close> and \<open>1\<close> only is not a
  sign followed by seven binary digits either, it fails with the syntax error of
  \<open>strconv.ParseInt\<close> for that group, not with \<open>ErrBinaryString\<close>.  Nothing is said of a
  string whose first such group is a sign followed by seven binary digits.
\<close>

theorem binaryStringToBytes_errors:
  "(binaryStringToBytes s = Inl ErrBinaryString \<longleftrightarrow> length s mod 8 \<noteq> 0) \<and>
   (length s mod 8 = 0 \<and> is_bit_string s \<longrightarrow>
      binaryStringToBytes s =
        Inr (map (\<lambda>i. of_nat (be_value (take 8 (drop (8 * i) s)))) [0..<length s div 8])) \<and>
   (length s mod 8 = 0 \<and> i < length s div 8 \<and>
    (\<forall>j<i. is_bit_string (take 8 (drop (8 * j) s))) \<and>
    \<not> is_bit_string (take 8 (drop (8 * i) s)) \<and>
    \<not> signed_group (take 8 (drop (8 * i) s)) \<longrightarrow>
      binaryStringToBytes s = Inl (NumError (take 8 (drop (8 * i) s)) ErrSyntax))"
proof (intro conjI impI)
  show "binaryStringToBytes s = Inl ErrBinaryString \<longleftrightarrow> length s mod 8 \<noteq> 0"
    by (simp add: binaryStringToBytes_def binaryStringToBytes_loop_not_ErrBinaryString)
next
  assume "length s mod 8 = 0 \<and> is_bit_string s"
  then show "binaryStringToBytes s =
        Inr (map (\<lambda>i. of_nat (be_value (take 8 (drop (8 * i) s)))) [0..<length s div 8])"
    by (simp add: binaryStringToBytes_bit_string)
next
  assume a: "length s mod 8 = 0 \<and> i < length s div 8 \<and>
    (\<forall>j<i. is_bit_string (take 8 (drop (8 * j) s))) \<and>
    \<not> is_bit_string (take 8 (drop (8 * i) s)) \<and>
    \<not> signed_group (take 8 (drop (8 * i) s))"
  then have "binaryStringToBytes_loop s [] = Inl (NumError (take 8 (drop (8 * i) s)) ErrSyntax)"
    by (intro binaryStringToBytes_loop_first_bad) simp_all
  with a show "binaryStringToBytes s = Inl (NumError (take 8 (drop (8 * i) s)) ErrSyntax)"
    by (simp add: binaryStringToBytes_def)
qed

theorem binaryStringToBytes_errors_witness:
  "binaryStringToBytes ''0000000'' = Inl ErrBinaryString \<and>
   binaryStringToBytes ''0000000111111111'' = Inr [1, 255] \<and>
   binaryStringToBytes ''0000000100b00001'' = Inl (NumError ''00b00001'' ErrSyntax) \<and>
   binaryStringToBytes ''0+000000'' = Inl (NumError ''0+000000'' ErrSyntax)"
  using binaryStringToBytes_errors [of "''0000000''" 0]
    binaryStringToBytes_errors [of "''0000000111111111''" 0]
    binaryStringToBytes_errors [of "''0000000100b00001''" 1]
    binaryStringToBytes_errors [of "''0+000000''" 0]
  by (simp add: is_bit_string_def signed_group_def be_value_def numeral_2_eq_2)

text \<open>
  Claim C5 as stated fails on the string \<open>0000a001\<close>, which has a character that is no
  binary digit: the error returned is the one of \<open>strconv.ParseInt\<close>.
\<close>

theorem binaryStringToBytes_error_counterexample:
  "\<not> (binaryStringToBytes ''0000a001'' = Inl ErrBinaryString \<longleftrightarrow>
       length ''0000a001'' mod 8 \<noteq> 0 \<or> \<not> is_bit_string ''0000a001'')"
  by (simp add: binaryStringToBytes_def binaryStringToBytes_loop.simps ParseInt_2_16_def
      ParseUint_2_16_def is_bit_string_def)

text \<open>
  Claim C8: \<open>binaryStringToBytes\<close> applied to \<open>bytesToBinaryString b\<close> succeeds and
  returns \<open>b\<close>, for every byte sequence; and for every string of characters \<open>0\<close> and
  \<open>1\<close> whose length is a multiple of 8, \<open>binaryStringToBytes\<close> succeeds and
  \<open>bytesToBinaryString\<close> of its result is the string again.
\<close>

theorem codec_roundtrip:
  "binaryStringToBytes (bytesToBinaryString b) = Inr b \<and>
   (is_bit_string s \<and> length s mod 8 = 0 \<longrightarrow>
      (\<exists>bs. binaryStringToBytes s = Inr bs \<and> bytesToBinaryString bs = s))"
proof (intro conjI impI)
  show "binaryStringToBytes (bytesToBinaryString b) = Inr b"
    by (rule binaryStringToBytes_bytes)
next
  assume a: "is_bit_string s \<and> length s mod 8 = 0"
  then have "length s mod 8 = 0" by simp
  then have "length s = 8 * (length s div 8)" by presburger
  with a bit_string_is_bytes [of s "length s div 8"] binaryStringToBytes_bit_string [of s]
  show "\<exists>bs. binaryStringToBytes s = Inr bs \<and> bytesToBinaryString bs = s"
    by auto
qed

theorem codec_roundtrip_witness:
  "binaryStringToBytes (bytesToBinaryString [0, 255, 5]) = Inr [0, 255, 5] \<and>
   is_bit_string ''0000000111111111'' \<and> length ''0000000111111111'' mod 8 = 0 \<and>
   (\<exists>bs. binaryStringToBytes ''0000000111111111'' = Inr bs \<and>
         bytesToBinaryString bs = ''0000000111111111'')"
  using codec_roundtrip [of "[0, 255, 5]" "''0000000111111111''"]
  by (simp add: is_bit_string_def)

section \<open>Binary search\<close>

lemma sort_Search_loop_bounds:
  "i \<le> j \<Longrightarrow> i \<le> sort_Search_loop i j f \<and> sort_Search_loop i j f \<le> j"
proof (induction i j f rule: sort_Search_loop.induct)
  case (1 i j f)
  show ?case
  proof (cases "i < j")
    case False
    then have "sort_Search_loop i j f = i" by (subst sort_Search_loop.simps) simp
    with "1.prems" show ?thesis by simp
  next
    case True
    let ?h = "(i + j) div 2"
    from True have h: "i \<le> ?h" "?h < j" by simp_all
    show ?thesis
    proof (cases "f ?h")
      case False
      have eq: "sort_Search_loop i j f = sort_Search_loop (?h + 1) j f"
        using True False by (subst sort_Search_loop.simps) (simp add: Let_def)
      from h have "?h + 1 \<le> j" by simp
      from "1.IH"(1) [OF True refl False this] h show ?thesis
        unfolding eq by linarith
    next
      case fh: True
      have eq: "sort_Search_loop i j f = sort_Search_loop i ?h f"
        using True fh by (subst sort_Search_loop.simps) (simp add: Let_def)
      have "\<not> \<not> f ?h" using fh by simp
      from "1.IH"(2) [OF True refl this h(1)] h show ?thesis
        unfolding eq by linarith
    qed
  qed
qed

lemma sort_Search_loop_least:
  assumes "i \<le> j" and "j \<le> n"
    and "\<forall>a b. a \<le> b \<and> b < n \<and> f a \<longrightarrow> f b"
    and "\<forall>k<i. \<not> f k"
    and "\<forall>k. j \<le> k \<and> k < n \<longrightarrow> f k"
  shows "(\<forall>k. k < sort_Search_loop i j f \<longrightarrow> \<not> f k) \<and> (\<forall>k. sort_Search_loop i j f \<le> k \<and> k < n \<longrightarrow> f k)"
  using assms
proof (induction i j f rule: sort_Search_loop.induct)
  case (1 i j f)
  show ?case
  proof (cases "i < j")
    case False
    then have "sort_Search_loop i j f = i" by (subst sort_Search_loop.simps) simp
    moreover from False "1.prems" have "i = j" by simp
    ultimately show ?thesis using "1.prems"(4,5) by simp
  next
    case True
    let ?h = "(i + j) div 2"
    from True "1.prems"(2) have h: "i \<le> ?h" "?h < j" "?h < n" by simp_all
    show ?thesis
    proof (cases "f ?h")
      case False
      have lo: "\<forall>k<?h + 1. \<not> f k"
      proof (intro allI impI)
        fix k assume "k < ?h + 1"
        then have "k \<le> ?h" by simp
        with "1.prems"(3) h(3) False show "\<not> f k" by blast
      qed
      from h have "?h + 1 \<le> j" by simp
      have eq: "sort_Search_loop i j f = sort_Search_loop (?h + 1) j f"
        using True False by (subst sort_Search_loop.simps) (simp add: Let_def)
      show ?thesis
        unfolding eq by (rule "1.IH"(1) [OF True refl False \<open>?h + 1 \<le> j\<close> "1.prems"(2,3) lo "1.prems"(5)])
    next
      case fh: True
      have hi: "\<forall>k. ?h \<le> k \<and> k < n \<longrightarrow> f k"
        using "1.prems"(3) fh by blast
      from h "1.prems"(2) have "?h \<le> n" by simp
      have eq: "sort_Search_loop i j f = sort_Search_loop i ?h f"
        using True fh by (subst sort_Search_loop.simps) (simp add: Let_def)
      have "\<not> \<not> f ?h" using fh by simp
      show ?thesis
        unfolding eq by (rule "1.IH"(2) [OF True refl \<open>\<not> \<not> f ?h\<close> h(1) \<open>?h \<le> n\<close> "1.prems"(3,4) hi])
    qed
  qed
qed

lemma sort_SearchStrings_le: "sort_SearchStrings wl x \<le> length wl"
  using sort_Search_loop_bounds [of 0 "length wl"]
  by (simp add: sort_SearchStrings_def sort_Search_def)

lemma sort_SearchStrings_sorted:
  assumes "sorted wl"
  shows "(\<forall>k. k < sort_SearchStrings wl x \<longrightarrow> \<not> x \<le> wl ! k) \<and>
         (\<forall>k. sort_SearchStrings wl x \<le> k \<and> k < length wl \<longrightarrow> x \<le> wl ! k)"
proof -
  have mono: "\<forall>a b. a \<le> b \<and> b < length wl \<and> x \<le> wl ! a \<longrightarrow> x \<le> wl ! b"
  proof (intro allI impI)
    fix a b assume "a \<le> b \<and> b < length wl \<and> x \<le> wl ! a"
    then have "wl ! a \<le> wl ! b" "x \<le> wl ! a"
      using assms by (simp_all add: sorted_nth_mono)
    then show "x \<le> wl ! b" by (rule order_trans [rotated])
  qed
  show ?thesis
    unfolding sort_SearchStrings_def sort_Search_def
    by (rule sort_Search_loop_least [where n = "length wl"]) (use mono in auto)
qed

lemma stringBinarySearch_cases:
  "stringBinarySearch wl x = - 1 \<or>
   (\<exists>k<length wl. stringBinarySearch wl x = int k \<and> wl ! k = x)"
  using sort_SearchStrings_le [of wl x]
  by (auto simp: stringBinarySearch_def Let_def)

lemma stringBinarySearch_notin:
  "x \<notin> set wl \<Longrightarrow> stringBinarySearch wl x = - 1"
  using stringBinarySearch_cases [of wl x] by (auto simp: in_set_conv_nth)

lemma stringBinarySearch_sorted:
  assumes "sorted wl" and "x \<in> set wl"
  shows "stringBinarySearch wl x = int (word_index wl x)"
proof -
  let ?r = "sort_SearchStrings wl x"
  from assms(2) obtain k where k: "k < length wl" "wl ! k = x"
    by (auto simp: in_set_conv_nth)
  from sort_SearchStrings_sorted [OF assms(1), of x]
  have lo: "\<forall>i<?r. \<not> x \<le> wl ! i" and hi: "\<forall>i. ?r \<le> i \<and> i < length wl \<longrightarrow> x \<le> wl ! i"
    by simp_all
  have rk: "?r \<le> k"
  proof (rule ccontr)
    assume "\<not> ?r \<le> k"
    then have "k < ?r" by simp
    with lo have "\<not> x \<le> wl ! k" by blast
    with k show False by simp
  qed
  with k have rl: "?r < length wl" by simp
  with hi have "x \<le> wl ! ?r" by simp
  moreover have "wl ! ?r \<le> x"
    using sorted_nth_mono [OF assms(1) rk k(1)] k(2) by simp
  ultimately have eq: "wl ! ?r = x" by simp
  have "takeWhile (\<lambda>y. y \<noteq> x) wl = take ?r wl"
  proof (rule takeWhile_eq_take_P_nth)
    fix i assume "i < ?r" "i < length wl"
    with lo show "wl ! i \<noteq> x" by auto
  next
    assume "?r < length wl"
    with eq show "\<not> wl ! ?r \<noteq> x" by simp
  qed
  with rl have "word_index wl x = ?r" by (simp add: word_index_def)
  with eq rl show ?thesis by (simp add: stringBinarySearch_def Let_def)
qed

lemma word_index_less: "x \<in> set wl \<Longrightarrow> word_index wl x < length wl"
  by (induction wl) (auto simp: word_index_def)

lemma word_index_nth: "distinct wl \<Longrightarrow> k < length wl \<Longrightarrow> word_index wl (wl ! k) = k"
proof -
  assume d: "distinct wl" and k: "k < length wl"
  have "takeWhile (\<lambda>y. y \<noteq> wl ! k) wl = take k wl"
  proof (rule takeWhile_eq_take_P_nth)
    fix i assume "i < k" "i < length wl"
    with d k show "wl ! i \<noteq> wl ! k" by (simp add: nth_eq_iff_index_eq)
  qed simp
  with k show ?thesis by (simp add: word_index_def)
qed

section \<open>Split and join\<close>

lemma strings_Split_not_Nil [simp]: "strings_Split s sep \<noteq> []"
  by (induction s) (auto split: list.splits)

lemma strings_Split_no_sep: "sep \<notin> set w \<Longrightarrow> strings_Split w sep = [w]"
  by (induction w) auto

lemma strings_Split_append_sep:
  "sep \<notin> set w \<Longrightarrow> strings_Split (w @ sep # s) sep = w # strings_Split s sep"
  by (induction w) auto

lemma strings_Split_Join:
  "ws \<noteq> [] \<Longrightarrow> \<forall>w\<in>set ws. sep \<notin> set w \<Longrightarrow> strings_Split (strings_Join ws [sep]) sep = ws"
proof (induction ws "[sep]" rule: strings_Join.induct)
  case 1
  then show ?case by simp
next
  case (2 x)
  then show ?case by (simp add: strings_Split_no_sep)
next
  case (3 x y ys)
  then show ?case by (simp add: strings_Split_append_sep)
qed

section \<open>Validation of lengths\<close>

lemma validateEntropyBitLen_iff:
  "validateEntropyBitLen n = None \<longleftrightarrow> n \<in> {128, 160, 192, 224, 256}"
  by (simp add: validateEntropyBitLen_def map_lookup_def entropyBitLenMap_def)

lemma validateEntropyBitLen_err:
  "validateEntropyBitLen n = Some e \<longleftrightarrow> n \<notin> {128, 160, 192, 224, 256} \<and> e = ErrEntropyBitLen"
  by (auto simp: validateEntropyBitLen_def map_lookup_def entropyBitLenMap_def)

lemma validateWordsNum_iff:
  "validateWordsNum n = None \<longleftrightarrow> n \<in> {12, 15, 18, 21, 24}"
  by (simp add: validateWordsNum_def map_lookup_def wordsNumMap_def)

lemma validateWordsNum_err:
  "validateWordsNum n = Some e \<longleftrightarrow> n \<notin> {12, 15, 18, 21, 24} \<and> e = ErrWordsNum"
  by (auto simp: validateWordsNum_def map_lookup_def wordsNumMap_def)

section \<open>Cutting a string into groups\<close>

lemma concat_groups:
  "length s = c * n \<Longrightarrow> concat (map (\<lambda>k. take c (drop (c * k) s)) [0..<n]) = s"
proof (induction n arbitrary: s)
  case 0
  then show ?case by simp
next
  case (Suc n)
  have up: "[0..<Suc n] = 0 # map Suc [0..<n]"
    by (simp add: upt_conv_Cons map_Suc_upt del: upt_Suc)
  have "concat (map (\<lambda>k. take c (drop (c * k) (drop c s))) [0..<n]) = drop c s"
    using Suc.prems by (intro Suc.IH) simp
  then show ?case
    unfolding up by (simp add: o_def add.commute del: upt_Suc)
qed

lemma groups_bits_be:
  assumes "is_bit_string s" and "length s = c * n"
  shows "concat (map (\<lambda>k. bits_be c (be_value (take c (drop (c * k) s)))) [0..<n]) = s"
proof -
  have "bits_be c (be_value (take c (drop (c * k) s))) = take c (drop (c * k) s)" if "k < n" for k
  proof -
    from that have "Suc k \<le> n" by simp
    then have "c * Suc k \<le> c * n" by (rule mult_le_mono2)
    then have "c * k + c \<le> c * n" by simp
    with assms(2) have "length (take c (drop (c * k) s)) = c" by simp
    moreover have "is_bit_string (take c (drop (c * k) s))"
      using assms(1) by (intro is_bit_string_take is_bit_string_drop)
    ultimately show ?thesis using bits_be_be_value by metis
  qed
  then have m: "map (\<lambda>k. bits_be c (be_value (take c (drop (c * k) s)))) [0..<n] =
             map (\<lambda>k. take c (drop (c * k) s)) [0..<n]"
    by (intro map_cong) simp_all
  show ?thesis
    by (simp only: m concat_groups [OF assms(2)])
qed

section \<open>Checksum\<close>

lemma entropyChecksumBinStr_spec:
  assumes "length (sha e) = 32" and "length e \<le> 1024"
  shows "entropyChecksumBinStr sha e = Inr (spec_checksum sha e)"
  using assms
  by (simp add: entropyChecksumBinStr_def spec_checksum_def bytesToBinaryString_spec_bits [symmetric] Let_def)

lemma length_spec_checksum:
  "length (sha e) = 32 \<Longrightarrow> length e \<le> 1024 \<Longrightarrow> length (spec_checksum sha e) = length e div 4"
  by (simp add: spec_checksum_def bytesToBinaryString_spec_bits [symmetric])

lemma is_bit_string_spec_checksum [simp]: "is_bit_string (spec_checksum sha e)"
  by (simp add: spec_checksum_def bytesToBinaryString_spec_bits [symmetric] is_bit_string_take)

section \<open>Encoding\<close>

lemma fst_ParseInt_bits:
  assumes "is_bit_string g" and "length g \<le> 15"
  shows "fst (ParseInt_2_16 g) = int (be_value g)"
proof (cases "g = []")
  case True
  then show ?thesis by (simp add: ParseInt_2_16_def be_value_def)
next
  case False
  with assms show ?thesis by (simp add: ParseInt_bits)
qed

lemma be_value_group_less:
  "be_value (take 11 t) < 2048"
proof -
  have "be_value (take 11 t) < 2 ^ length (take 11 t)" by (rule be_value_less)
  also have "(2::nat) ^ length (take 11 t) \<le> 2 ^ 11"
    by (intro power_increasing) simp_all
  finally show ?thesis by simp
qed

lemma MnemonicFromEntropy_loop_words:
  assumes "is_bit_string s" and "length wl = 2048"
  shows "MnemonicFromEntropy_loop wl s i n acc =
         Inr (acc @ map (\<lambda>k. wl ! be_value (take 11 (drop (11 * k) s))) [i..<n])"
proof (induction "n - i" arbitrary: i acc)
  case 0
  then have "\<not> i < n" by simp
  then show ?case by (subst MnemonicFromEntropy_loop.simps) simp
next
  case (Suc d)
  then have lt: "i < n" and d: "d = n - (i + 1)" by simp_all
  let ?g = "take 11 (drop (11 * i) s)"
  have g: "is_bit_string ?g"
    using assms(1) by (intro is_bit_string_take is_bit_string_drop)
  have p: "fst (ParseInt_2_16 ?g) = int (be_value ?g)"
    using g by (rule fst_ParseInt_bits) simp
  have v: "be_value ?g < 2048" by (rule be_value_group_less)
  have "MnemonicFromEntropy_loop wl s i n acc =
        MnemonicFromEntropy_loop wl s (i + 1) n (acc @ [wl ! be_value ?g])"
    using lt p v assms(2)
    by (subst MnemonicFromEntropy_loop.simps) (simp add: wordBitLen_def Let_def mult.commute)
  also have "\<dots> = Inr ((acc @ [wl ! be_value ?g]) @
      map (\<lambda>k. wl ! be_value (take 11 (drop (11 * k) s))) [i + 1..<n])"
    by (rule Suc.hyps(1) [OF d])
  also have "\<dots> = Inr (acc @ map (\<lambda>k. wl ! be_value (take 11 (drop (11 * k) s))) [i..<n])"
    using lt by (simp add: upt_conv_Cons)
  finally show ?case .
qed

lemma valid_entropy_length:
  "int (length e) * 8 \<in> {128, 160, 192, 224, 256} \<longleftrightarrow> length e \<in> {16, 20, 24, 28, 32}"
  by auto

lemma MnemonicFromEntropy_spec:
  assumes len: "length e \<in> {16, 20, 24, 28, 32}"
    and wl: "length wl = 2048" and sha: "length (sha e) = 32"
  shows "MnemonicFromEntropy wl sha e =
         Inr \<lparr>Words = strings_Join (map (\<lambda>k. wl ! k) (spec_word_indices sha e)) '' ''\<rparr>"
proof -
  let ?s = "bytesToBinaryString e @ spec_checksum sha e"
  from len have le: "length e \<le> 1024" by auto
  have v: "validateEntropyBitLen (int (length e) * 8) = None"
    using len by (simp only: validateEntropyBitLen_iff valid_entropy_length)
  have c: "entropyChecksumBinStr sha e = Inr (spec_checksum sha e)"
    using sha le by (rule entropyChecksumBinStr_spec)
  have bs: "is_bit_string ?s" by simp
  have ls: "length ?s = 8 * length e + length e div 4"
    using sha le by (simp add: length_spec_checksum)
  have n: "length ?s div 11 = (8 * length e + 8 * length e div 32) div 11"
    unfolding ls by simp
  have loop: "MnemonicFromEntropy_loop wl ?s 0 (length ?s div 11) [] =
      Inr (map (\<lambda>k. wl ! be_value (take 11 (drop (11 * k) ?s))) [0..<length ?s div 11])"
    using MnemonicFromEntropy_loop_words [OF bs wl, of 0 "length ?s div 11" "[]"] by simp
  have idx: "map (\<lambda>k. wl ! k) (spec_word_indices sha e) =
      map (\<lambda>k. wl ! be_value (take 11 (drop (11 * k) ?s))) [0..<length ?s div 11]"
    unfolding n
    by (simp add: spec_word_indices_def Let_def o_def spec_checksum_def
        bytesToBinaryString_spec_bits)
  show ?thesis
    unfolding MnemonicFromEntropy_def
    by (simp only: v c option.case sum.case Let_def wordBitLen_def loop idx)
qed

section \<open>Decoding\<close>

lemma getBinaryStrings_loop_invalid:
  "\<exists>w\<in>set ws. stringBinarySearch wl w = - 1 \<Longrightarrow>
   getBinaryStrings_loop wl ws buf = Inl ErrInvalidWord"
  by (induction ws arbitrary: buf) (auto simp: Let_def)

lemma getBinaryStrings_loop_found:
  "\<forall>w\<in>set ws. stringBinarySearch wl w \<noteq> - 1 \<Longrightarrow>
   getBinaryStrings_loop wl ws buf =
     Inr (buf @ concat (map (\<lambda>w. sprintf_b 11 (stringBinarySearch wl w)) ws))"
  by (induction ws arbitrary: buf) (auto simp: Let_def)

lemma sprintf_b_found:
  assumes "length wl = 2048" and "stringBinarySearch wl w \<noteq> - 1"
  shows "\<exists>k<2048. sprintf_b 11 (stringBinarySearch wl w) = bits_be 11 k"
proof -
  from stringBinarySearch_cases [of wl w] assms
  obtain k where k: "k < 2048" "stringBinarySearch wl w = int k" by auto
  then have "sprintf_b 11 (int k) = bits_be 11 k"
    by (intro sprintf_b_bits_be) simp_all
  with k show ?thesis by auto
qed

lemma found_bits:
  assumes "length wl = 2048" and "\<forall>w\<in>set ws. stringBinarySearch wl w \<noteq> - 1"
  shows "length (concat (map (\<lambda>w. sprintf_b 11 (stringBinarySearch wl w)) ws)) = 11 * length ws \<and>
         is_bit_string (concat (map (\<lambda>w. sprintf_b 11 (stringBinarySearch wl w)) ws))"
  using assms(2)
proof (induction ws)
  case Nil
  then show ?case by (simp add: is_bit_string_def)
next
  case (Cons w ws)
  from Cons.prems have "stringBinarySearch wl w \<noteq> - 1" by simp
  from sprintf_b_found [OF assms(1) this]
  obtain k where "sprintf_b 11 (stringBinarySearch wl w) = bits_be 11 k" by auto
  with Cons show ?case by simp
qed

lemma sorted_found_bits:
  assumes "length wl = 2048" and "sorted wl" and "set ws \<subseteq> set wl"
  shows "concat (map (\<lambda>w. sprintf_b 11 (stringBinarySearch wl w)) ws) = spec_combined wl ws"
proof -
  have "sprintf_b 11 (stringBinarySearch wl w) = bits_be 11 (word_index wl w)" if "w \<in> set ws" for w
  proof -
    from that assms(3) have w: "w \<in> set wl" by auto
    then have "word_index wl w < 2 ^ 11" using word_index_less [of w wl] assms(1) by simp
    then have "sprintf_b 11 (int (word_index wl w)) = bits_be 11 (word_index wl w)"
      by (rule sprintf_b_bits_be) simp
    with stringBinarySearch_sorted [OF assms(2) w] show ?thesis by simp
  qed
  then have "map (\<lambda>w. sprintf_b 11 (stringBinarySearch wl w)) ws =
             map (\<lambda>w. bits_be 11 (word_index wl w)) ws"
    by (intro map_cong) simp_all
  then show ?thesis by (simp only: spec_combined_def)
qed

lemma sorted_found:
  "sorted wl \<Longrightarrow> w \<in> set wl \<Longrightarrow> stringBinarySearch wl w \<noteq> - 1"
  by (simp add: stringBinarySearch_sorted)

lemma getBinaryStrings_count:
  "int (length (strings_Split (Words m) (CHR '' ''))) \<notin> {12, 15, 18, 21, 24} \<Longrightarrow>
   getBinaryStrings wl m = Inl ErrWordsNum"
  using validateWordsNum_err [of "int (length (strings_Split (Words m) (CHR '' '')))" ErrWordsNum]
  by (simp add: getBinaryStrings_def Let_def del: insert_iff)

lemma getBinaryStrings_invalid_word:
  assumes "int (length (strings_Split (Words m) (CHR '' ''))) \<in> {12, 15, 18, 21, 24}"
    and "\<exists>w\<in>set (strings_Split (Words m) (CHR '' '')). stringBinarySearch wl w = - 1"
  shows "getBinaryStrings wl m = Inl ErrInvalidWord"
  using validateWordsNum_iff [of "int (length (strings_Split (Words m) (CHR '' '')))"] assms(1)
    getBinaryStrings_loop_invalid [OF assms(2), of "[]"]
  by (simp add: getBinaryStrings_def Let_def del: insert_iff)

lemma getBinaryStrings_found:
  assumes "int (length (strings_Split (Words m) (CHR '' ''))) \<in> {12, 15, 18, 21, 24}"
    and "\<forall>w\<in>set (strings_Split (Words m) (CHR '' '')). stringBinarySearch wl w \<noteq> - 1"
    and "length wl = 2048"
  shows "getBinaryStrings wl m =
     (let ws = strings_Split (Words m) (CHR '' '');
          bits = concat (map (\<lambda>w. sprintf_b 11 (stringBinarySearch wl w)) ws)
      in Inr (take (length ws * 11 - length ws * 11 div 33) bits,
              drop (length ws * 11 - length ws * 11 div 33) bits))"
  using validateWordsNum_iff [of "int (length (strings_Split (Words m) (CHR '' '')))"] assms(1)
    getBinaryStrings_loop_found [OF assms(2), of "[]"] found_bits [OF assms(3,2)]
  by (simp add: getBinaryStrings_def Let_def mult.commute del: insert_iff)

lemma getBinaryStrings_error_kinds:
  "getBinaryStrings wl m = Inl err \<Longrightarrow> err = ErrWordsNum \<or> err = ErrInvalidWord"
proof -
  assume a: "getBinaryStrings wl m = Inl err"
  let ?ws = "strings_Split (Words m) (CHR '' '')"
  show ?thesis
  proof (cases "validateWordsNum (int (length ?ws))")
    case (Some e)
    with a validateWordsNum_err [of "int (length ?ws)" e] show ?thesis
      by (simp add: getBinaryStrings_def Let_def del: insert_iff)
  next
    case None
    show ?thesis
    proof (cases "\<exists>w\<in>set ?ws. stringBinarySearch wl w = - 1")
      case True
      from getBinaryStrings_loop_invalid [OF True, of "[]"] a None show ?thesis
        by (simp add: getBinaryStrings_def Let_def)
    next
      case False
      then have "\<forall>w\<in>set ?ws. stringBinarySearch wl w \<noteq> - 1" by simp
      from getBinaryStrings_loop_found [OF this, of "[]"] a None show ?thesis
        by (simp add: getBinaryStrings_def Let_def)
    qed
  qed
qed

lemma entropy_bits_length:
  assumes "int n \<in> {12, 15, 18, 21, 24}"
  shows "n * 11 - n * 11 div 33 \<in> {128, 160, 192, 224, 256}"
proof -
  from assms have "n = 12 \<or> n = 15 \<or> n = 18 \<or> n = 21 \<or> n = 24" by auto
  then show ?thesis by auto
qed


lemma length_spec_bytes [simp]: "length (spec_bytes s) = length s div 8"
  by (simp add: spec_bytes_def)

text \<open>
  What \<open>ToEntropy\<close> and \<open>Validate\<close> compute once every word has been found: the dropped
  error of \<open>binaryStringToBytes\<close> is absent, and the checksum does not panic.
\<close>

lemma decode_found:
  assumes n: "int (length (strings_Split (Words m) (CHR '' ''))) \<in> {12, 15, 18, 21, 24}"
    and found: "\<forall>w\<in>set (strings_Split (Words m) (CHR '' '')). stringBinarySearch wl w \<noteq> - 1"
    and wl: "length wl = 2048"
    and sha: "\<forall>x. length (sha x) = 32"
  defines "ws \<equiv> strings_Split (Words m) (CHR '' '')"
  defines "bits \<equiv> concat (map (\<lambda>w. sprintf_b 11 (stringBinarySearch wl w)) ws)"
  defines "k \<equiv> length ws * 11 - length ws * 11 div 33"
  shows "getBinaryStrings wl m = Inr (take k bits, drop k bits)"
    and "binaryStringToBytes (take k bits) = Inr (spec_bytes (take k bits))"
    and "entropyChecksumBinStr sha (spec_bytes (take k bits)) =
           Inr (spec_checksum sha (spec_bytes (take k bits)))"
    and "length (take k bits) = k" and "k \<in> {128, 160, 192, 224, 256}"
    and "is_bit_string (take k bits)"
proof -
  from found_bits [OF wl found] have lb: "length bits = 11 * length ws" and bb: "is_bit_string bits"
    by (simp_all add: bits_def ws_def)
  show g: "getBinaryStrings wl m = Inr (take k bits, drop k bits)"
    using getBinaryStrings_found [OF n found wl] by (simp add: Let_def ws_def bits_def k_def)
  show k: "k \<in> {128, 160, 192, 224, 256}"
    unfolding k_def ws_def by (rule entropy_bits_length [OF n])
  show lk: "length (take k bits) = k"
    using lb by (simp add: k_def)
  show bt: "is_bit_string (take k bits)" using bb by (rule is_bit_string_take)
  from k lk have m8: "length (take k bits) mod 8 = 0" by auto
  show "binaryStringToBytes (take k bits) = Inr (spec_bytes (take k bits))"
    using binaryStringToBytes_bit_string [OF bt m8] by (simp add: spec_bytes_def)
  have "length (spec_bytes (take k bits)) \<le> 1024"
    using k lk by auto
  with sha show "entropyChecksumBinStr sha (spec_bytes (take k bits)) =
           Inr (spec_checksum sha (spec_bytes (take k bits)))"
    by (intro entropyChecksumBinStr_spec) simp_all
qed

lemma ToEntropy_found:
  assumes "int (length (strings_Split (Words m) (CHR '' ''))) \<in> {12, 15, 18, 21, 24}"
    and "\<forall>w\<in>set (strings_Split (Words m) (CHR '' '')). stringBinarySearch wl w \<noteq> - 1"
    and "length wl = 2048"
    and "\<forall>x. length (sha x) = 32"
  shows "ToEntropy wl sha m =
     (let ws = strings_Split (Words m) (CHR '' '');
          bits = concat (map (\<lambda>w. sprintf_b 11 (stringBinarySearch wl w)) ws);
          k = length ws * 11 - length ws * 11 div 33;
          entropy = spec_bytes (take k bits)
      in if spec_checksum sha entropy \<noteq> drop k bits then Inl ErrChecksum else Inr entropy)"
  unfolding ToEntropy_def Let_def
  by (simp only: decode_found(1-3) [OF assms] sum.case prod.case)

lemma Validate_found:
  assumes "int (length (strings_Split (Words m) (CHR '' ''))) \<in> {12, 15, 18, 21, 24}"
    and "\<forall>w\<in>set (strings_Split (Words m) (CHR '' '')). stringBinarySearch wl w \<noteq> - 1"
    and "length wl = 2048"
    and "\<forall>x. length (sha x) = 32"
  shows "Validate wl sha m =
     (let ws = strings_Split (Words m) (CHR '' '');
          bits = concat (map (\<lambda>w. sprintf_b 11 (stringBinarySearch wl w)) ws);
          k = length ws * 11 - length ws * 11 div 33;
          entropy = spec_bytes (take k bits)
      in if spec_checksum sha entropy \<noteq> drop k bits then Some ErrChecksum else None)"
  unfolding Validate_def Let_def
  by (simp only: decode_found(1-3) [OF assms] sum.case prod.case)

lemma failed_lookup:
  "getBinaryStrings wl m = Inl err \<Longrightarrow>
   ToEntropy wl sha m = Inl err \<and> Validate wl sha m = Some err"
  by (simp add: ToEntropy_def Validate_def)

lemma IsValid_err:
  "Validate wl sha m = Some err \<Longrightarrow> err \<noteq> Panic \<Longrightarrow> IsValid wl sha m = Inr False"
  by (cases err) (simp_all add: IsValid_def)

lemma GenerateSeed_err:
  "Validate wl sha m = Some err \<Longrightarrow> GenerateSeed wl sha kdf m p = Inl err"
  by (simp add: GenerateSeed_def)

lemma GenerateSeed_ok:
  "Validate wl sha m = None \<Longrightarrow>
   GenerateSeed wl sha kdf m p =
     Inr (kdf (bytes_of_string (Words m)) (bytes_of_string (''mnemonic'' @ p)) 2048 64 sha512_New)"
  by (simp add: GenerateSeed_def seedSaltMod_def seedPbkdf2Round_def seedPbkdf2KeyLen_def)

section \<open>The sample word list\<close>

lemma replicate_less:
  "i < j \<Longrightarrow> replicate i (c::char) < replicate j c"
proof (induction i arbitrary: j)
  case 0
  then show ?case by (cases j) simp_all
next
  case (Suc i)
  then show ?case by (cases j) simp_all
qed

lemma wordlist_ok_sample: "wordlist_ok sample_wordlist"
proof -
  let ?f = "\<lambda>i. replicate (Suc i) (CHR ''a'')"
  have mono: "?f i \<le> ?f j" if "i < j" for i j
    using replicate_less [of "Suc i" "Suc j" "CHR ''a''"] that by (simp add: less_imp_le)
  have "sorted_wrt (\<lambda>i j. ?f i \<le> ?f j) [0..<2048]"
    by (rule sorted_wrt_mono_rel [OF _ sorted_wrt_upt]) (use mono in blast)
  then have s: "sorted (map ?f [0..<2048])"
    by (simp only: sorted_map)
  have "inj_on ?f (set [0..<2048])"
    by (rule inj_onI) (metis length_replicate nat.inject)
  then have d: "distinct (map ?f [0..<2048])"
    by (simp add: distinct_map)
  have sp: "list_all (\<lambda>w. CHR '' '' \<notin> set w) (map ?f [0..<2048])"
    by (simp add: list_all_iff)
  from s d sp show ?thesis
    by (simp add: wordlist_ok_def sample_wordlist_def)
qed

lemma length_sample_sha: "\<forall>x. length (sample_sha x) = 32"
  by (simp add: sample_sha_def)

section \<open>Error priority of decoding\<close>

lemma count_error:
  assumes "int (length (strings_Split (Words m) (CHR '' ''))) \<notin> {12, 15, 18, 21, 24}"
  shows "ToEntropy wl sha m = Inl ErrWordsNum \<and> Validate wl sha m = Some ErrWordsNum \<and>
         IsValid wl sha m = Inr False \<and> GenerateSeed wl sha kdf m p = Inl ErrWordsNum"
proof -
  from getBinaryStrings_count [OF assms] have "getBinaryStrings wl m = Inl ErrWordsNum" .
  from failed_lookup [OF this] show ?thesis
    by (simp add: IsValid_err GenerateSeed_err)
qed

lemma word_error:
  assumes "int (length (strings_Split (Words m) (CHR '' ''))) \<in> {12, 15, 18, 21, 24}"
    and "\<exists>w\<in>set (strings_Split (Words m) (CHR '' '')). stringBinarySearch wl w = - 1"
  shows "ToEntropy wl sha m = Inl ErrInvalidWord \<and> Validate wl sha m = Some ErrInvalidWord \<and>
         IsValid wl sha m = Inr False \<and> GenerateSeed wl sha kdf m p = Inl ErrInvalidWord"
proof -
  from getBinaryStrings_invalid_word [OF assms] have "getBinaryStrings wl m = Inl ErrInvalidWord" .
  from failed_lookup [OF this] show ?thesis
    by (simp add: IsValid_err GenerateSeed_err)
qed

lemma decode_sorted:
  assumes n: "int (length (strings_Split (Words m) (CHR '' ''))) \<in> {12, 15, 18, 21, 24}"
    and sub: "set (strings_Split (Words m) (CHR '' '')) \<subseteq> set wl"
    and wl: "length wl = 2048" and srt: "sorted wl"
    and sha: "\<forall>x. length (sha x) = 32"
  defines "ws \<equiv> strings_Split (Words m) (CHR '' '')"
  shows "ToEntropy wl sha m =
           (if spec_checksum sha (spec_entropy wl ws) \<noteq> spec_checksum_bits wl ws
            then Inl ErrChecksum else Inr (spec_entropy wl ws))"
    and "Validate wl sha m =
           (if spec_checksum sha (spec_entropy wl ws) \<noteq> spec_checksum_bits wl ws
            then Some ErrChecksum else None)"
proof -
  from sub srt have found: "\<forall>w\<in>set (strings_Split (Words m) (CHR '' '')). stringBinarySearch wl w \<noteq> - 1"
    using sorted_found [OF srt] by blast
  have bits: "concat (map (\<lambda>w. sprintf_b 11 (stringBinarySearch wl w)) ws) = spec_combined wl ws"
    unfolding ws_def by (rule sorted_found_bits [OF wl srt sub])
  show "ToEntropy wl sha m =
           (if spec_checksum sha (spec_entropy wl ws) \<noteq> spec_checksum_bits wl ws
            then Inl ErrChecksum else Inr (spec_entropy wl ws))"
    using ToEntropy_found [OF n found wl sha] bits
    by (simp add: Let_def ws_def spec_entropy_def spec_checksum_bits_def)
  show "Validate wl sha m =
           (if spec_checksum sha (spec_entropy wl ws) \<noteq> spec_checksum_bits wl ws
            then Some ErrChecksum else None)"
    using Validate_found [OF n found wl sha] bits
    by (simp add: Let_def ws_def spec_entropy_def spec_checksum_bits_def)
qed

text \<open>
  Claim C3: the decoding functions check in a fixed order.  A word count outside
  12, 15, 18, 21, 24 gives \<open>ErrWordsNum\<close> whatever the words are; with a valid count, a word
  that is not in the word list gives \<open>ErrInvalidWord\<close> whatever the checksum is; with a
  valid count and all words in the list, the checksum of the decoded entropy is compared
  with the trailing bits, and a mismatch gives \<open>ErrChecksum\<close>; otherwise all succeed.
  The word list has 2048 entries in ascending order.
\<close>

theorem decode_error_priority:
  assumes "length wl = 2048" and "sorted wl" and "\<forall>x. length (sha x) = 32"
  shows
    "let ws = strings_Split (Words m) (CHR '' ''); n = int (length ws) in
       (n \<notin> {12, 15, 18, 21, 24} \<longrightarrow>
          ToEntropy wl sha m = Inl ErrWordsNum \<and> Validate wl sha m = Some ErrWordsNum \<and>
          IsValid wl sha m = Inr False \<and> GenerateSeed wl sha kdf m p = Inl ErrWordsNum) \<and>
       (n \<in> {12, 15, 18, 21, 24} \<and> \<not> set ws \<subseteq> set wl \<longrightarrow>
          ToEntropy wl sha m = Inl ErrInvalidWord \<and> Validate wl sha m = Some ErrInvalidWord \<and>
          IsValid wl sha m = Inr False \<and> GenerateSeed wl sha kdf m p = Inl ErrInvalidWord) \<and>
       (n \<in> {12, 15, 18, 21, 24} \<and> set ws \<subseteq> set wl \<and>
        spec_checksum sha (spec_entropy wl ws) \<noteq> spec_checksum_bits wl ws \<longrightarrow>
          ToEntropy wl sha m = Inl ErrChecksum \<and> Validate wl sha m = Some ErrChecksum \<and>
          IsValid wl sha m = Inr False \<and> GenerateSeed wl sha kdf m p = Inl ErrChecksum) \<and>
       (n \<in> {12, 15, 18, 21, 24} \<and> set ws \<subseteq> set wl \<and>
        spec_checksum sha (spec_entropy wl ws) = spec_checksum_bits wl ws \<longrightarrow>
          ToEntropy wl sha m = Inr (spec_entropy wl ws) \<and> Validate wl sha m = None \<and>
          IsValid wl sha m = Inr True \<and> (\<exists>seed. GenerateSeed wl sha kdf m p = Inr seed))"
proof -
  let ?ws = "strings_Split (Words m) (CHR '' '')"
  let ?n = "int (length ?ws)"
  have 1: "ToEntropy wl sha m = Inl ErrWordsNum \<and> Validate wl sha m = Some ErrWordsNum \<and>
          IsValid wl sha m = Inr False \<and> GenerateSeed wl sha kdf m p = Inl ErrWordsNum"
    if "?n \<notin> {12, 15, 18, 21, 24}"
    using that by (rule count_error)
  have 2: "ToEntropy wl sha m = Inl ErrInvalidWord \<and> Validate wl sha m = Some ErrInvalidWord \<and>
          IsValid wl sha m = Inr False \<and> GenerateSeed wl sha kdf m p = Inl ErrInvalidWord"
    if "?n \<in> {12, 15, 18, 21, 24}" and "\<not> set ?ws \<subseteq> set wl"
  proof -
    from that(2) obtain w where "w \<in> set ?ws" "w \<notin> set wl" by auto
    then have "\<exists>w\<in>set ?ws. stringBinarySearch wl w = - 1"
      using stringBinarySearch_notin by blast
    with that(1) show ?thesis by (rule word_error)
  qed
  have 3: "ToEntropy wl sha m = Inl ErrChecksum \<and> Validate wl sha m = Some ErrChecksum \<and>
          IsValid wl sha m = Inr False \<and> GenerateSeed wl sha kdf m p = Inl ErrChecksum"
    if "?n \<in> {12, 15, 18, 21, 24}" and "set ?ws \<subseteq> set wl"
      and "spec_checksum sha (spec_entropy wl ?ws) \<noteq> spec_checksum_bits wl ?ws"
    using decode_sorted [OF that(1,2) assms] that(3)
    by (simp add: IsValid_err GenerateSeed_err)
  have 4: "ToEntropy wl sha m = Inr (spec_entropy wl ?ws) \<and> Validate wl sha m = None \<and>
          IsValid wl sha m = Inr True \<and> (\<exists>seed. GenerateSeed wl sha kdf m p = Inr seed)"
    if "?n \<in> {12, 15, 18, 21, 24}" and "set ?ws \<subseteq> set wl"
      and "spec_checksum sha (spec_entropy wl ?ws) = spec_checksum_bits wl ?ws"
    using decode_sorted [OF that(1,2) assms] that(3)
    by (simp add: IsValid_def GenerateSeed_ok)
  from 1 2 3 4 show ?thesis
    unfolding Let_def by blast
qed

lemma sample_wordlist_facts:
  "length sample_wordlist = 2048" "sorted sample_wordlist" "distinct sample_wordlist"
  using wordlist_ok_sample by (simp_all add: wordlist_ok_def)

lemma sample_word_a: "''a'' \<in> set sample_wordlist"
proof -
  have "''a'' = replicate (Suc 0) (CHR ''a'')" by simp
  moreover have "(0::nat) \<in> {0..<2048}" by simp
  ultimately show ?thesis
    unfolding sample_wordlist_def set_map set_upt by (rule image_eqI)
qed

lemma sample_no_empty_word: "[] \<notin> set sample_wordlist"
  by (auto simp: sample_wordlist_def)

lemma sample_no_word_b: "''b'' \<notin> set sample_wordlist"
  by (auto simp: sample_wordlist_def)

lemma sample_index_a: "word_index sample_wordlist ''a'' = 0"
proof -
  have "sample_wordlist ! 0 = ''a''" by (simp add: sample_wordlist_def)
  with word_index_nth [OF sample_wordlist_facts(3), of 0] sample_wordlist_facts(1)
  show ?thesis by simp
qed

lemma zeros_132:
  "drop 128 (concat (replicate 12 (replicate 11 (CHR ''0'')))) = ''0000''"
  "length (take 128 (concat (replicate 12 (replicate 11 (CHR ''0''))))) div 8 = 16"
  by code_simp+

lemma sample_twelve_a:
  "spec_checksum_bits sample_wordlist (replicate 12 ''a'') = ''0000''"
  "length (spec_entropy sample_wordlist (replicate 12 ''a'')) = 16"
  using zeros_132
  by (simp_all add: spec_checksum_bits_def spec_entropy_def spec_combined_def sample_index_a
      bits_be_zero)

lemma sample_sha_checksum:
  "length e = 16 \<Longrightarrow> spec_checksum sample_sha e = ''0001''"
proof -
  assume l: "length e = 16"
  have "take 4 (spec_bits (replicate 32 (16::byte))) = ''0001''"
    by code_simp
  with l show ?thesis by (simp add: spec_checksum_def sample_sha_def)
qed

lemma split_twelve_a:
  "strings_Split ''a a a a a a a a a a a a'' (CHR '' '') = replicate 12 ''a''"
  by (simp add: numeral_eq_Suc)

theorem decode_error_priority_witness:
  "length sample_wordlist = 2048 \<and> sorted sample_wordlist \<and> (\<forall>x. length (sample_sha x) = 32) \<and>
   ToEntropy sample_wordlist sample_sha \<lparr>Words = ''a a a a a a a a a a b''\<rparr> = Inl ErrWordsNum \<and>
   Validate sample_wordlist sample_sha \<lparr>Words = ''a a a a a a a a a a a b''\<rparr> = Some ErrInvalidWord \<and>
   ToEntropy sample_wordlist sample_sha \<lparr>Words = ''a a a a a a a a a a a a''\<rparr> = Inl ErrChecksum"
proof -
  have b: "\<not> set (strings_Split ''a a a a a a a a a a a b'' (CHR '' '')) \<subseteq> set sample_wordlist"
    using sample_no_word_b by simp
  have a: "set (replicate 12 ''a'') \<subseteq> set sample_wordlist"
    using sample_word_a by simp
  have c: "spec_checksum sample_sha (spec_entropy sample_wordlist (replicate 12 ''a'')) \<noteq>
           spec_checksum_bits sample_wordlist (replicate 12 ''a'')"
    by (simp add: sample_sha_checksum sample_twelve_a)
  from decode_error_priority [OF sample_wordlist_facts(1,2) length_sample_sha,
      of "\<lparr>Words = ''a a a a a a a a a a b''\<rparr>"]
  have 1: "ToEntropy sample_wordlist sample_sha \<lparr>Words = ''a a a a a a a a a a b''\<rparr> = Inl ErrWordsNum"
    by (simp add: Let_def)
  from decode_error_priority [OF sample_wordlist_facts(1,2) length_sample_sha,
      of "\<lparr>Words = ''a a a a a a a a a a a b''\<rparr>"] b
  have 2: "Validate sample_wordlist sample_sha \<lparr>Words = ''a a a a a a a a a a a b''\<rparr> = Some ErrInvalidWord"
    by (simp add: Let_def)
  from decode_error_priority [OF sample_wordlist_facts(1,2) length_sample_sha,
      of "\<lparr>Words = ''a a a a a a a a a a a a''\<rparr>"] a c
  have 3: "ToEntropy sample_wordlist sample_sha \<lparr>Words = ''a a a a a a a a a a a a''\<rparr> = Inl ErrChecksum"
    unfolding Let_def Mnemonic.simps split_twelve_a by simp
  from 1 2 3 sample_wordlist_facts(1,2) length_sample_sha show ?thesis by blast
qed

text \<open>
  Claim C9: when the split of the mnemonic string has a valid count and contains an empty
  token, \<open>ToEntropy\<close>, \<open>Validate\<close> and \<open>GenerateSeed\<close> fail with \<open>ErrInvalidWord\<close> and do not
  panic, the empty string not being a word of the list.
\<close>

theorem empty_token_invalid_word:
  assumes "[] \<notin> set wl"
    and "int (length (strings_Split (Words m) (CHR '' ''))) \<in> {12, 15, 18, 21, 24}"
    and "[] \<in> set (strings_Split (Words m) (CHR '' ''))"
  shows "ToEntropy wl sha m = Inl ErrInvalidWord \<and> Validate wl sha m = Some ErrInvalidWord \<and>
         GenerateSeed wl sha kdf m p = Inl ErrInvalidWord"
proof -
  from assms(1) have "stringBinarySearch wl [] = - 1" by (rule stringBinarySearch_notin)
  with assms(3) have "\<exists>w\<in>set (strings_Split (Words m) (CHR '' '')). stringBinarySearch wl w = - 1"
    by blast
  from word_error [OF assms(2) this] show ?thesis by simp
qed

theorem empty_token_invalid_word_witness:
  "[] \<notin> set sample_wordlist \<and>
   strings_Split '' a a  a a a a a a a a'' (CHR '' '') =
     [[], ''a'', ''a'', [], ''a'', ''a'', ''a'', ''a'', ''a'', ''a'', ''a'', ''a''] \<and>
   ToEntropy sample_wordlist sample_sha \<lparr>Words = '' a a  a a a a a a a a''\<rparr> = Inl ErrInvalidWord \<and>
   Validate sample_wordlist sample_sha \<lparr>Words = '' a a  a a a a a a a a''\<rparr> = Some ErrInvalidWord \<and>
   GenerateSeed sample_wordlist sample_sha (\<lambda>pw salt n k h. []) \<lparr>Words = '' a a  a a a a a a a a''\<rparr> ''''
     = Inl ErrInvalidWord"
  using empty_token_invalid_word [OF sample_no_empty_word,
      of "\<lparr>Words = '' a a  a a a a a a a a''\<rparr>" sample_sha "\<lambda>pw salt n k h. []" "''''"]
    sample_no_empty_word
  by simp

text \<open>
  Claim C10: when \<open>getBinaryStrings\<close> succeeds, the word count \<open>N\<close> is one of
  12, 15, 18, 21, 24, the entropy part it returns has \<open>N*11 - N*11/33\<close> characters, a
  positive multiple of 8, all of them \<open>0\<close> or \<open>1\<close>, and \<open>binaryStringToBytes\<close> of it
  succeeds: the error that \<open>ToEntropy\<close> and \<open>Validate\<close> drop is never there.  The word
  list has 2048 entries.
\<close>

theorem dropped_error_absent:
  assumes "length wl = 2048" and "getBinaryStrings wl m = Inr (entropyBinStr, chksumBinStr)"
  shows
    "let n = length (strings_Split (Words m) (CHR '' '')) in
       int n \<in> {12, 15, 18, 21, 24} \<and>
       length entropyBinStr = n * 11 - (n * 11) div 33 \<and>
       0 < length entropyBinStr \<and> length entropyBinStr mod 8 = 0 \<and>
       is_bit_string entropyBinStr \<and>
       (\<exists>bs. binaryStringToBytes entropyBinStr = Inr bs)"
proof -
  let ?ws = "strings_Split (Words m) (CHR '' '')"
  have n: "int (length ?ws) \<in> {12, 15, 18, 21, 24}"
  proof (rule ccontr)
    assume "\<not> ?thesis"
    from getBinaryStrings_count [OF this] assms(2) show False by simp
  qed
  have found: "\<forall>w\<in>set ?ws. stringBinarySearch wl w \<noteq> - 1"
  proof (rule ccontr)
    assume "\<not> ?thesis"
    then have "\<exists>w\<in>set ?ws. stringBinarySearch wl w = - 1" by simp
    from getBinaryStrings_invalid_word [OF n this] assms(2) show False by simp
  qed
  note d = decode_found [OF n found assms(1) length_sample_sha]
  from d(1) assms(2) have e: "entropyBinStr =
      take (length ?ws * 11 - length ?ws * 11 div 33)
        (concat (map (\<lambda>w. sprintf_b 11 (stringBinarySearch wl w)) ?ws))"
    by simp
  from d(4,5) have "0 < length entropyBinStr" "length entropyBinStr mod 8 = 0"
    unfolding e by auto
  with n d(2,4,6) show ?thesis
    unfolding Let_def e by blast
qed

theorem dropped_error_absent_witness:
  "length sample_wordlist = 2048 \<and>
   (\<exists>e c. getBinaryStrings sample_wordlist \<lparr>Words = ''a a a a a a a a a a a a''\<rparr> = Inr (e, c) \<and>
      length e = 128 \<and> is_bit_string e \<and> (\<exists>bs. binaryStringToBytes e = Inr bs))"
proof -
  let ?m = "\<lparr>Words = ''a a a a a a a a a a a a''\<rparr>"
  have n: "int (length (strings_Split (Words ?m) (CHR '' ''))) \<in> {12, 15, 18, 21, 24}" by simp
  have "\<forall>w\<in>set (strings_Split (Words ?m) (CHR '' '')). stringBinarySearch sample_wordlist w \<noteq> - 1"
    using sorted_found [OF sample_wordlist_facts(2) sample_word_a] by simp
  from getBinaryStrings_found [OF n this sample_wordlist_facts(1)]
  obtain e c where g: "getBinaryStrings sample_wordlist ?m = Inr (e, c)"
    by (simp add: Let_def)
  from dropped_error_absent [OF sample_wordlist_facts(1) g]
  have "length e = 128 \<and> is_bit_string e \<and> (\<exists>bs. binaryStringToBytes e = Inr bs)"
    by (simp add: Let_def)
  with g sample_wordlist_facts(1) show ?thesis by blast
qed

section \<open>Entropy generation\<close>

lemma length_rand_Read: "length (fst (rand_Read rd buf)) = length buf"
  by (auto simp: rand_Read_def Let_def split: prod.split)

lemma snd_rand_Read: "snd (rand_Read rd buf) = snd (rd (length buf))"
  by (simp add: rand_Read_def Let_def split: prod.split)

lemma GenerateEntropy_valid:
  assumes "bitLen \<in> {128, 160, 192, 224, 256}"
  shows "\<exists>buf. GenerateEntropy rd bitLen = (Some buf, snd (rd (nat (bitLen div 8)))) \<and>
             length buf = nat (bitLen div 8)"
proof -
  from assms have v: "validateEntropyBitLen bitLen = None"
    by (simp only: validateEntropyBitLen_iff)
  let ?buf0 = "replicate (nat (bitLen div 8)) (0::byte)"
  have "GenerateEntropy rd bitLen = (Some (fst (rand_Read rd ?buf0)), snd (rand_Read rd ?buf0))"
    using v by (simp add: GenerateEntropy_def Let_def split: prod.split)
  with length_rand_Read [of rd ?buf0] snd_rand_Read [of rd ?buf0]
  show ?thesis by simp
qed

text \<open>
  Claim C6, as the code has it: \<open>GenerateEntropy\<close> fails with \<open>ErrEntropyBitLen\<close> and the nil
  slice when the bit length is not one of 128, 160, 192, 224, 256; for a valid bit length
  it returns a buffer of \<open>bitLen/8\<close> bytes together with whatever error the random source
  gave, so that a failure of the random source comes with a buffer, not with the nil slice.
\<close>

theorem GenerateEntropy_results:
  "(bitLen \<notin> {128, 160, 192, 224, 256} \<longrightarrow>
      GenerateEntropy rd bitLen = (None, Some ErrEntropyBitLen)) \<and>
   (bitLen \<in> {128, 160, 192, 224, 256} \<longrightarrow>
      (\<exists>buf. GenerateEntropy rd bitLen = (Some buf, snd (rd (nat (bitLen div 8)))) \<and>
             length buf = nat (bitLen div 8)))"
proof (intro conjI impI)
  assume "bitLen \<notin> {128, 160, 192, 224, 256}"
  then have "validateEntropyBitLen bitLen = Some ErrEntropyBitLen"
    unfolding validateEntropyBitLen_err by simp
  then show "GenerateEntropy rd bitLen = (None, Some ErrEntropyBitLen)"
    by (simp add: GenerateEntropy_def)
next
  assume "bitLen \<in> {128, 160, 192, 224, 256}"
  then show "\<exists>buf. GenerateEntropy rd bitLen = (Some buf, snd (rd (nat (bitLen div 8)))) \<and>
             length buf = nat (bitLen div 8)"
    by (rule GenerateEntropy_valid)
qed

theorem GenerateEntropy_results_witness:
  "GenerateEntropy (\<lambda>n. ([], Some RandError)) 129 = (None, Some ErrEntropyBitLen) \<and>
   (\<exists>buf. GenerateEntropy (\<lambda>n. ([], Some RandError)) 128 = (Some buf, Some RandError) \<and>
          length buf = 16)"
  using GenerateEntropy_results [of 129 "\<lambda>n. ([], Some RandError)"]
    GenerateEntropy_results [of 128 "\<lambda>n. ([], Some RandError)"]
  by simp

section \<open>Round trip\<close>

lemma entropy_lengths:
  assumes "length e \<in> {16, 20, 24, 28, 32}"
  shows "(8 * length e + 8 * length e div 32) div 11 \<in> {12, 15, 18, 21, 24}"
    and "8 * length e + length e div 4 = 11 * ((8 * length e + 8 * length e div 32) div 11)"
    and "(8 * length e + 8 * length e div 32) div 11 * 11
           - (8 * length e + 8 * length e div 32) div 11 * 11 div 33 = 8 * length e"
    and "int ((8 * length e + 8 * length e div 32) div 11) \<in> {12, 15, 18, 21, 24}"
proof -
  from assms have "length e = 16 \<or> length e = 20 \<or> length e = 24 \<or> length e = 28 \<or> length e = 32"
    by simp
  then show "(8 * length e + 8 * length e div 32) div 11 \<in> {12, 15, 18, 21, 24}"
    and "8 * length e + length e div 4 = 11 * ((8 * length e + 8 * length e div 32) div 11)"
    and "(8 * length e + 8 * length e div 32) div 11 * 11
           - (8 * length e + 8 * length e div 32) div 11 * 11 div 33 = 8 * length e"
    and "int ((8 * length e + 8 * length e div 32) div 11) \<in> {12, 15, 18, 21, 24}"
    by auto
qed

lemma length_spec_word_indices:
  "length (spec_word_indices sha e) = (8 * length e + 8 * length e div 32) div 11"
  by (simp add: spec_word_indices_def Let_def)

lemma spec_word_indices_less: "\<forall>k\<in>set (spec_word_indices sha e). k < 2048"
proof
  fix k assume "k \<in> set (spec_word_indices sha e)"
  then obtain t where "k = be_value (take 11 t)"
    unfolding spec_word_indices_def Let_def set_map by blast
  then show "k < 2048" by (simp only: be_value_group_less)
qed

lemma spec_word_indices_bits:
  assumes "length e \<in> {16, 20, 24, 28, 32}" and "length (sha e) = 32"
  shows "concat (map (bits_be 11) (spec_word_indices sha e)) =
         bytesToBinaryString e @ spec_checksum sha e"
proof -
  let ?s = "bytesToBinaryString e @ spec_checksum sha e"
  let ?n = "(8 * length e + 8 * length e div 32) div 11"
  from assms(1) have "length e \<le> 1024" by auto
  with assms(2) have "length ?s = 8 * length e + length e div 4"
    by (simp add: length_spec_checksum)
  with entropy_lengths(2) [OF assms(1)] have l: "length ?s = 11 * ?n" by simp
  have "is_bit_string ?s" by simp
  from groups_bits_be [OF this l]
  show ?thesis
    by (simp add: spec_word_indices_def Let_def o_def spec_checksum_def
        bytesToBinaryString_spec_bits)
qed

lemma spec_bytes_bytesToBinaryString: "spec_bytes (bytesToBinaryString e) = e"
proof -
  have "is_bit_string (bytesToBinaryString e)" "length (bytesToBinaryString e) mod 8 = 0"
    by simp_all
  from binaryStringToBytes_bit_string [OF this] binaryStringToBytes_bytes [of e]
  show ?thesis by (simp add: spec_bytes_def)
qed

lemma encoded_words:
  assumes len: "length e \<in> {16, 20, 24, 28, 32}"
    and wl: "length wl = 2048" and nsp: "list_all (\<lambda>w. CHR '' '' \<notin> set w) wl"
    and sha: "length (sha e) = 32"
  shows "\<exists>m. MnemonicFromEntropy wl sha e = Inr m \<and>
             strings_Split (Words m) (CHR '' '') = map (\<lambda>k. wl ! k) (spec_word_indices sha e)"
proof -
  let ?ws = "map (\<lambda>k. wl ! k) (spec_word_indices sha e)"
  from entropy_lengths(1) [OF len] have "length ?ws \<noteq> 0"
    unfolding length_map length_spec_word_indices by auto
  then have ne: "?ws \<noteq> []" by auto
  have "\<forall>w\<in>set ?ws. CHR '' '' \<notin> set w"
  proof
    fix w assume "w \<in> set ?ws"
    then obtain k where "k \<in> set (spec_word_indices sha e)" "w = wl ! k" by auto
    with spec_word_indices_less [of sha e] wl have "w \<in> set wl" by simp
    with nsp show "CHR '' '' \<notin> set w" by (simp add: list_all_iff)
  qed
  from strings_Split_Join [OF ne this] MnemonicFromEntropy_spec [where e = e and wl = wl and sha = sha, OF len wl sha]
  show ?thesis by simp
qed

lemma encode_decode:
  assumes len: "length e \<in> {16, 20, 24, 28, 32}"
    and ok: "wordlist_ok wl" and sha: "\<forall>x. length (sha x) = 32"
  shows "\<exists>m. MnemonicFromEntropy wl sha e = Inr m \<and> ToEntropy wl sha m = Inr e \<and>
             Validate wl sha m = None"
proof -
  from ok have wl: "length wl = 2048" and srt: "sorted wl" and dst: "distinct wl"
    and nsp: "list_all (\<lambda>w. CHR '' '' \<notin> set w) wl"
    by (simp_all add: wordlist_ok_def)
  let ?idx = "spec_word_indices sha e"
  let ?ws = "map (\<lambda>k. wl ! k) ?idx"
  from sha have she: "length (sha e) = 32" by simp
  from encoded_words [where e = e and wl = wl and sha = sha, OF len wl nsp she]
  obtain m where m: "MnemonicFromEntropy wl sha e = Inr m"
    and ws: "strings_Split (Words m) (CHR '' '') = ?ws" by blast
  have n: "int (length (strings_Split (Words m) (CHR '' ''))) \<in> {12, 15, 18, 21, 24}"
    unfolding ws length_map length_spec_word_indices by (rule entropy_lengths(4) [OF len])
  have sub: "set (strings_Split (Words m) (CHR '' '')) \<subseteq> set wl"
    unfolding ws using spec_word_indices_less [of sha e] wl by auto
  have "map (\<lambda>w. bits_be 11 (word_index wl w)) ?ws = map (bits_be 11) ?idx"
    unfolding map_map
    by (rule map_cong) (use spec_word_indices_less [of sha e] wl dst in \<open>simp_all add: word_index_nth\<close>)
  then have comb: "spec_combined wl ?ws = bytesToBinaryString e @ spec_checksum sha e"
    unfolding spec_combined_def by (simp only: spec_word_indices_bits [where e = e and sha = sha, OF len she])
  have k: "length ?ws * 11 - length ?ws * 11 div 33 = 8 * length e"
    unfolding length_map length_spec_word_indices by (rule entropy_lengths(3) [OF len])
  have ent: "spec_entropy wl ?ws = e"
    unfolding spec_entropy_def k comb by (simp add: spec_bytes_bytesToBinaryString)
  have chk: "spec_checksum_bits wl ?ws = spec_checksum sha e"
    unfolding spec_checksum_bits_def k comb by simp
  from decode_sorted [OF n sub wl srt sha] m show ?thesis
    unfolding ws ent chk by simp
qed

section \<open>The claims on encoding and the seed\<close>

lemma valid_bits_length:
  "8 * length e \<in> {128, 160, 192, 224, 256} \<Longrightarrow> length e \<in> {16, 20, 24, 28, 32}"
  by auto

text \<open>
  Claim C1: for every entropy whose bit length is one of 128, 160, 192, 224, 256,
  \<open>MnemonicFromEntropy\<close> succeeds and \<open>ToEntropy\<close> of the mnemonic succeeds and returns the
  entropy.  The word list has 2048 entries in strictly ascending order without spaces, and
  the hash has 32 bytes.
\<close>

theorem entropy_roundtrip:
  assumes "8 * length e \<in> {128, 160, 192, 224, 256}"
    and "wordlist_ok wl" and "\<forall>x. length (sha x) = 32"
  shows "\<exists>m. MnemonicFromEntropy wl sha e = Inr m \<and> ToEntropy wl sha m = Inr e"
  using encode_decode [OF valid_bits_length [OF assms(1)] assms(2,3)] by blast

theorem entropy_roundtrip_witness:
  "8 * length (replicate 16 (0::byte)) \<in> {128, 160, 192, 224, 256} \<and>
   wordlist_ok sample_wordlist \<and> (\<forall>x. length (sample_sha x) = 32) \<and>
   (\<exists>m. MnemonicFromEntropy sample_wordlist sample_sha (replicate 16 0) = Inr m \<and>
        ToEntropy sample_wordlist sample_sha m = Inr (replicate 16 0))"
proof -
  have l: "8 * length (replicate 16 (0::byte)) \<in> {128, 160, 192, 224, 256}" by simp
  from entropy_roundtrip [OF l wordlist_ok_sample length_sample_sha] l
    wordlist_ok_sample length_sample_sha
  show ?thesis by blast
qed

text \<open>
  Claim C4: for every entropy of \<open>bits\<close> bits, \<open>bits\<close> one of 128, 160, 192, 224, 256,
  \<open>MnemonicFromEntropy\<close> returns a mnemonic whose split on single spaces has
  \<open>(bits + bits/32)/11\<close> words, a number among 12, 15, 18, 21, 24, and each word is the
  entry of the word list at the index given by the corresponding 11-bit big-endian group
  of the entropy bits followed by the leading \<open>bits/32\<close> bits of the hash.  The word list
  has 2048 entries without spaces, and the hash has 32 bytes.
\<close>

theorem mnemonic_words:
  assumes "8 * length e \<in> {128, 160, 192, 224, 256}"
    and "length wl = 2048" and "list_all (\<lambda>w. CHR '' '' \<notin> set w) wl"
    and "\<forall>x. length (sha x) = 32"
  shows "\<exists>m. MnemonicFromEntropy wl sha e = Inr m \<and>
     strings_Split (Words m) (CHR '' '') = map (\<lambda>k. wl ! k) (spec_word_indices sha e) \<and>
     length (strings_Split (Words m) (CHR '' '')) = (8 * length e + 8 * length e div 32) div 11 \<and>
     length (strings_Split (Words m) (CHR '' '')) \<in> {12, 15, 18, 21, 24}"
proof -
  note len = valid_bits_length [OF assms(1)]
  from assms(4) have she: "length (sha e) = 32" by simp
  from encoded_words [where e = e and wl = wl and sha = sha, OF len assms(2,3) she]
  obtain m where m: "MnemonicFromEntropy wl sha e = Inr m"
    and ws: "strings_Split (Words m) (CHR '' '') = map (\<lambda>k. wl ! k) (spec_word_indices sha e)"
    by blast
  have "length (strings_Split (Words m) (CHR '' '')) = (8 * length e + 8 * length e div 32) div 11"
    unfolding ws by (simp only: length_map length_spec_word_indices)
  with m ws entropy_lengths(1) [OF len] show ?thesis by simp
qed

theorem mnemonic_words_witness:
  "8 * length (replicate 16 (255::byte)) \<in> {128, 160, 192, 224, 256} \<and>
   length sample_wordlist = 2048 \<and> list_all (\<lambda>w. CHR '' '' \<notin> set w) sample_wordlist \<and>
   (\<forall>x. length (sample_sha x) = 32) \<and>
   (\<exists>m. MnemonicFromEntropy sample_wordlist sample_sha (replicate 16 255) = Inr m \<and>
        length (strings_Split (Words m) (CHR '' '')) = 12)"
proof -
  have l: "8 * length (replicate 16 (255::byte)) \<in> {128, 160, 192, 224, 256}" by simp
  have w: "length sample_wordlist = 2048" "list_all (\<lambda>w. CHR '' '' \<notin> set w) sample_wordlist"
    using wordlist_ok_sample by (simp_all add: wordlist_ok_def)
  from mnemonic_words [OF l w length_sample_sha]
  obtain m where "MnemonicFromEntropy sample_wordlist sample_sha (replicate 16 255) = Inr m"
    and "length (strings_Split (Words m) (CHR '' '')) = 12"
    by auto
  with l w length_sample_sha show ?thesis by blast
qed

text \<open>
  Claim C2: \<open>GenerateSeed\<close> first validates the mnemonic.  When validation fails it returns
  that error and no seed; when it succeeds it returns PBKDF2 of the bytes of the words as
  password, the bytes of \<open>mnemonic\<close> followed by the passphrase as salt, 2048 iterations,
  64 bytes of output and SHA-512, for every passphrase.  The validation is the full one:
  with a word list of 2048 entries in ascending order and a hash of 32 bytes, a wrong word
  count gives \<open>ErrWordsNum\<close>, a word outside the list \<open>ErrInvalidWord\<close>, a checksum that
  differs \<open>ErrChecksum\<close>, and only a mnemonic that passes all three gives a seed.
\<close>

theorem GenerateSeed_result:
  "(\<forall>err. Validate wl sha m = Some err \<longrightarrow> GenerateSeed wl sha kdf m p = Inl err) \<and>
   (Validate wl sha m = None \<longrightarrow>
      GenerateSeed wl sha kdf m p =
        Inr (kdf (map of_char (Words m)) (map of_char (''mnemonic'' @ p)) 2048 64 sha512_New)) \<and>
   (length wl = 2048 \<and> sorted wl \<and> (\<forall>x. length (sha x) = 32) \<longrightarrow>
      (let ws = strings_Split (Words m) (CHR '' ''); n = int (length ws) in
         (n \<notin> {12, 15, 18, 21, 24} \<longrightarrow> GenerateSeed wl sha kdf m p = Inl ErrWordsNum) \<and>
         (n \<in> {12, 15, 18, 21, 24} \<and> \<not> set ws \<subseteq> set wl \<longrightarrow>
            GenerateSeed wl sha kdf m p = Inl ErrInvalidWord) \<and>
         (n \<in> {12, 15, 18, 21, 24} \<and> set ws \<subseteq> set wl \<and>
          spec_checksum sha (spec_entropy wl ws) \<noteq> spec_checksum_bits wl ws \<longrightarrow>
            GenerateSeed wl sha kdf m p = Inl ErrChecksum) \<and>
         (n \<in> {12, 15, 18, 21, 24} \<and> set ws \<subseteq> set wl \<and>
          spec_checksum sha (spec_entropy wl ws) = spec_checksum_bits wl ws \<longrightarrow>
            GenerateSeed wl sha kdf m p =
              Inr (kdf (map of_char (Words m)) (map of_char (''mnemonic'' @ p))
                     2048 64 sha512_New))))"
proof -
  let ?ws = "strings_Split (Words m) (CHR '' '')"
  let ?n = "int (length ?ws)"
  let ?seed = "kdf (map of_char (Words m)) (map of_char (''mnemonic'' @ p)) 2048 64 sha512_New"
  have ok: "GenerateSeed wl sha kdf m p = Inr ?seed" if "Validate wl sha m = None"
    using GenerateSeed_ok [OF that, of kdf p] by (simp add: bytes_of_string_def)
  have err: "GenerateSeed wl sha kdf m p = Inl e" if "Validate wl sha m = Some e" for e
    using that by (rule GenerateSeed_err)
  have dec: "length wl = 2048 \<and> sorted wl \<and> (\<forall>x. length (sha x) = 32) \<longrightarrow>
      (?n \<notin> {12, 15, 18, 21, 24} \<longrightarrow> GenerateSeed wl sha kdf m p = Inl ErrWordsNum) \<and>
      (?n \<in> {12, 15, 18, 21, 24} \<and> \<not> set ?ws \<subseteq> set wl \<longrightarrow>
         GenerateSeed wl sha kdf m p = Inl ErrInvalidWord) \<and>
      (?n \<in> {12, 15, 18, 21, 24} \<and> set ?ws \<subseteq> set wl \<and>
       spec_checksum sha (spec_entropy wl ?ws) \<noteq> spec_checksum_bits wl ?ws \<longrightarrow>
         GenerateSeed wl sha kdf m p = Inl ErrChecksum) \<and>
      (?n \<in> {12, 15, 18, 21, 24} \<and> set ?ws \<subseteq> set wl \<and>
       spec_checksum sha (spec_entropy wl ?ws) = spec_checksum_bits wl ?ws \<longrightarrow>
         GenerateSeed wl sha kdf m p = Inr ?seed)"
  proof (intro impI conjI)
    assume "?n \<notin> {12, 15, 18, 21, 24}"
    from count_error [OF this] show "GenerateSeed wl sha kdf m p = Inl ErrWordsNum" by simp
  next
    assume a: "?n \<in> {12, 15, 18, 21, 24} \<and> \<not> set ?ws \<subseteq> set wl"
    then obtain w where "w \<in> set ?ws" "w \<notin> set wl" by auto
    then have "\<exists>w\<in>set ?ws. stringBinarySearch wl w = - 1"
      using stringBinarySearch_notin by blast
    with a word_error [of m wl sha kdf p]
    show "GenerateSeed wl sha kdf m p = Inl ErrInvalidWord" by blast
  next
    assume h: "length wl = 2048 \<and> sorted wl \<and> (\<forall>x. length (sha x) = 32)"
      and a: "?n \<in> {12, 15, 18, 21, 24} \<and> set ?ws \<subseteq> set wl \<and>
       spec_checksum sha (spec_entropy wl ?ws) \<noteq> spec_checksum_bits wl ?ws"
    from a have n: "?n \<in> {12, 15, 18, 21, 24}" and sub: "set ?ws \<subseteq> set wl" by simp_all
    from h have wl: "length wl = 2048" and srt: "sorted wl" and sha: "\<forall>x. length (sha x) = 32"
      by simp_all
    from decode_sorted(2) [OF n sub wl srt sha] a
    have "Validate wl sha m = Some ErrChecksum" by simp
    then show "GenerateSeed wl sha kdf m p = Inl ErrChecksum" by (rule err)
  next
    assume h: "length wl = 2048 \<and> sorted wl \<and> (\<forall>x. length (sha x) = 32)"
      and a: "?n \<in> {12, 15, 18, 21, 24} \<and> set ?ws \<subseteq> set wl \<and>
       spec_checksum sha (spec_entropy wl ?ws) = spec_checksum_bits wl ?ws"
    from a have n: "?n \<in> {12, 15, 18, 21, 24}" and sub: "set ?ws \<subseteq> set wl" by simp_all
    from h have wl: "length wl = 2048" and srt: "sorted wl" and sha: "\<forall>x. length (sha x) = 32"
      by simp_all
    from decode_sorted(2) [OF n sub wl srt sha] a
    have "Validate wl sha m = None" by simp
    then show "GenerateSeed wl sha kdf m p = Inr ?seed" by (rule ok)
  qed
  from ok err dec show ?thesis
    unfolding Let_def by blast
qed

lemma sample_word_aa: "''aa'' \<in> set sample_wordlist"
proof -
  have "''aa'' = replicate (Suc 1) (CHR ''a'')" by (simp add: numeral_2_eq_2)
  moreover have "(1::nat) \<in> {0..<2048}" by simp
  ultimately show ?thesis
    unfolding sample_wordlist_def set_map set_upt by (rule image_eqI)
qed

lemma sample_index_aa: "word_index sample_wordlist ''aa'' = 1"
proof -
  have "sample_wordlist ! 1 = ''aa''" by (simp add: sample_wordlist_def)
  with word_index_nth [OF sample_wordlist_facts(3), of 1] sample_wordlist_facts(1)
  show ?thesis by simp
qed

lemma bits_132:
  "drop 128 (concat (replicate 11 (replicate 11 (CHR ''0''))) @ bits_be 11 1) = ''0001''"
  "length (take 128 (concat (replicate 11 (replicate 11 (CHR ''0''))) @ bits_be 11 1)) div 8 = 16"
  by code_simp+

lemma sample_valid_words:
  "spec_checksum_bits sample_wordlist (replicate 11 ''a'' @ [''aa'']) = ''0001''"
  "length (spec_entropy sample_wordlist (replicate 11 ''a'' @ [''aa''])) = 16"
  using bits_132
  by (simp_all add: spec_checksum_bits_def spec_entropy_def spec_combined_def sample_index_a
      sample_index_aa bits_be_zero)

lemma split_valid_words:
  "strings_Split ''a a a a a a a a a a a aa'' (CHR '' '') = replicate 11 ''a'' @ [''aa'']"
  by (simp add: numeral_eq_Suc)

theorem GenerateSeed_result_witness:
  "GenerateSeed sample_wordlist sample_sha (\<lambda>pw salt n k h. pw @ 0 # salt)
      \<lparr>Words = ''a b''\<rparr> ''TREZOR'' = Inl ErrWordsNum \<and>
   GenerateSeed sample_wordlist sample_sha (\<lambda>pw salt n k h. pw @ 0 # salt)
      \<lparr>Words = ''a a a a a a a a a a a b''\<rparr> ''TREZOR'' = Inl ErrInvalidWord \<and>
   GenerateSeed sample_wordlist sample_sha (\<lambda>pw salt n k h. pw @ 0 # salt)
      \<lparr>Words = ''a a a a a a a a a a a a''\<rparr> ''TREZOR'' = Inl ErrChecksum \<and>
   GenerateSeed sample_wordlist sample_sha (\<lambda>pw salt n k h. pw @ 0 # salt)
      \<lparr>Words = ''a a a a a a a a a a a aa''\<rparr> ''TREZOR'' =
     Inr [97, 32, 97, 32, 97, 32, 97, 32, 97, 32, 97, 32, 97, 32, 97, 32, 97, 32, 97, 32, 97, 32,
          97, 97, 0, 109, 110, 101, 109, 111, 110, 105, 99, 84, 82, 69, 90, 79, 82]"
proof -
  let ?kdf = "\<lambda>(pw::byte list) (salt::byte list) (n::nat) (k::nat) (h::hash_new). pw @ 0 # salt"
  note h = sample_wordlist_facts(1,2) length_sample_sha
  have b: "\<not> set (strings_Split ''a a a a a a a a a a a b'' (CHR '' '')) \<subseteq> set sample_wordlist"
    using sample_no_word_b by simp
  have a: "set (replicate 12 ''a'') \<subseteq> set sample_wordlist"
    using sample_word_a by simp
  have c: "spec_checksum sample_sha (spec_entropy sample_wordlist (replicate 12 ''a'')) \<noteq>
           spec_checksum_bits sample_wordlist (replicate 12 ''a'')"
    by (simp add: sample_sha_checksum sample_twelve_a)
  have v: "set (replicate 11 ''a'' @ [''aa'']) \<subseteq> set sample_wordlist"
    using sample_word_a sample_word_aa by simp
  have d: "spec_checksum sample_sha (spec_entropy sample_wordlist (replicate 11 ''a'' @ [''aa''])) =
           spec_checksum_bits sample_wordlist (replicate 11 ''a'' @ [''aa''])"
    by (simp add: sample_sha_checksum sample_valid_words)
  from GenerateSeed_result [of sample_wordlist sample_sha "\<lparr>Words = ''a b''\<rparr>" ?kdf "''TREZOR''"] h
  have 1: "GenerateSeed sample_wordlist sample_sha ?kdf \<lparr>Words = ''a b''\<rparr> ''TREZOR'' = Inl ErrWordsNum"
    by (simp add: Let_def)
  from GenerateSeed_result [of sample_wordlist sample_sha
      "\<lparr>Words = ''a a a a a a a a a a a b''\<rparr>" ?kdf "''TREZOR''"] h b
  have 2: "GenerateSeed sample_wordlist sample_sha ?kdf
      \<lparr>Words = ''a a a a a a a a a a a b''\<rparr> ''TREZOR'' = Inl ErrInvalidWord"
    by (simp add: Let_def)
  from GenerateSeed_result [of sample_wordlist sample_sha
      "\<lparr>Words = ''a a a a a a a a a a a a''\<rparr>" ?kdf "''TREZOR''"] h a c
  have 3: "GenerateSeed sample_wordlist sample_sha ?kdf
      \<lparr>Words = ''a a a a a a a a a a a a''\<rparr> ''TREZOR'' = Inl ErrChecksum"
    unfolding Let_def Mnemonic.simps split_twelve_a by simp
  from GenerateSeed_result [of sample_wordlist sample_sha
      "\<lparr>Words = ''a a a a a a a a a a a aa''\<rparr>" ?kdf "''TREZOR''"] h v d
  have 4: "GenerateSeed sample_wordlist sample_sha ?kdf
      \<lparr>Words = ''a a a a a a a a a a a aa''\<rparr> ''TREZOR'' =
     Inr [97, 32, 97, 32, 97, 32, 97, 32, 97, 32, 97, 32, 97, 32, 97, 32, 97, 32, 97, 32, 97, 32,
          97, 97, 0, 109, 110, 101, 109, 111, 110, 105, 99, 84, 82, 69, 90, 79, 82]"
    unfolding Let_def Mnemonic.simps split_valid_words by simp
  from 1 2 3 4 show ?thesis by blast
qed

text \<open>
  Claim C7, as the code has it: for a word count among 12, 15, 18, 21, 24,
  \<open>MnemonicFromWordsNum\<close> generates entropy of \<open>wordsNum*11 - wordsNum/3\<close> bits and encodes
  the buffer it gets; the error of the random source is dropped, so a mnemonic is returned
  also when the random source has failed.
\<close>

theorem MnemonicFromWordsNum_drops_error:
  assumes "wordsNum \<in> {12, 15, 18, 21, 24}"
    and "length wl = 2048" and "\<forall>x. length (sha x) = 32"
  shows "\<exists>entropy m.
     GenerateEntropy rd (wordsNum * 11 - wordsNum div 3) =
       (Some entropy, snd (rd (nat ((wordsNum * 11 - wordsNum div 3) div 8)))) \<and>
     MnemonicFromEntropy wl sha entropy = Inr m \<and>
     MnemonicFromWordsNum rd wl sha wordsNum = Inr m"
proof -
  from assms(1) have q: "quo wordsNum 3 = wordsNum div 3" by (auto simp: quo_def)
  from assms(1) have b: "wordsNum * 11 - wordsNum div 3 \<in> {128, 160, 192, 224, 256}" by auto
  from GenerateEntropy_valid [OF b, of rd]
  obtain buf where g: "GenerateEntropy rd (wordsNum * 11 - wordsNum div 3) =
       (Some buf, snd (rd (nat ((wordsNum * 11 - wordsNum div 3) div 8))))"
    and lb: "length buf = nat ((wordsNum * 11 - wordsNum div 3) div 8)" by blast
  from b lb have len: "length buf \<in> {16, 20, 24, 28, 32}" by auto
  from assms(3) have she: "length (sha buf) = 32" by simp
  from MnemonicFromEntropy_spec [where e = buf and wl = wl and sha = sha, OF len assms(2) she]
  obtain m where m: "MnemonicFromEntropy wl sha buf = Inr m" by blast
  from assms(1) have v: "validateWordsNum wordsNum = None"
    by (simp only: validateWordsNum_iff)
  have "MnemonicFromWordsNum rd wl sha wordsNum = Inr m"
    using v q g m by (simp add: MnemonicFromWordsNum_def Let_def)
  with g m show ?thesis by blast
qed

theorem MnemonicFromWordsNum_drops_error_witness:
  "(12::int) \<in> {12, 15, 18, 21, 24} \<and> length sample_wordlist = 2048 \<and>
   (\<forall>x. length (sample_sha x) = 32) \<and>
   (\<exists>entropy m.
      GenerateEntropy (\<lambda>n. ([], Some RandError)) 128 = (Some entropy, Some RandError) \<and>
      MnemonicFromWordsNum (\<lambda>n. ([], Some RandError)) sample_wordlist sample_sha 12 = Inr m)"
proof -
  have n: "(12::int) \<in> {12, 15, 18, 21, 24}" by simp
  from MnemonicFromWordsNum_drops_error [OF n sample_wordlist_facts(1) length_sample_sha,
      of "\<lambda>n. ([], Some RandError)"]
  have "\<exists>entropy m.
      GenerateEntropy (\<lambda>n. ([], Some RandError)) 128 = (Some entropy, Some RandError) \<and>
      MnemonicFromWordsNum (\<lambda>n. ([], Some RandError)) sample_wordlist sample_sha 12 = Inr m"
    by simp blast
  with n sample_wordlist_facts(1) length_sample_sha show ?thesis by blast
qed

end
